theory Spec2Isabelle
  imports Main "HOL-Library.Sublist" "HOL-Library.AList"
begin

section \<open>Data model\<close>

text \<open>
  The script \<^verbatim>\<open>github-ccd.py\<close> lists the repositories of an organization, lists the
  commits of the last 90 days of each repository, counts for every author login the
  repositories they committed to, and writes the counts to a CSV file.

  The JSON values the script reads have the shapes it subscripts: a repository object
  carries a \<open>name\<close>; a commit object is subscripted with \<open>'author'\<close>, and the value found
  there is tested for truth before \<open>'login'\<close> is read from it.
\<close>

record repo_json =
  name :: string

text \<open>
  The \<open>author\<close> entry of a commit object: the key may be absent from the object
  (then \<^verbatim>\<open>commit['author']\<close> raises \<open>KeyError\<close>), its value may be JSON \<open>null\<close> or the
  empty object (both false in Python), or a user object with a \<open>login\<close>.
\<close>

datatype author_json = Absent | Null | EmptyObject | User (login: string)

record commit_json =
  author :: author_json

text \<open>
  What \<^verbatim>\<open>requests.get\<close> followed by \<^verbatim>\<open>raise_for_status\<close> can give: the transport
  fails (\<open>Failed\<close>, raised by \<^verbatim>\<open>requests.get\<close> itself), the status is not a success
  (\<open>BadStatus\<close>, raised by \<^verbatim>\<open>raise_for_status\<close>), or a body arrives. The string is the
  text of the exception.
\<close>

datatype 'a response = Failed string | BadStatus string | Ok 'a

datatype error = RequestException string | KeyError string | IOError string

text \<open>
  The two URLs the script builds, kept as their parts:
  \<^verbatim>\<open>{base_url}/orgs/{org}/repos?page={page}&per_page=100\<close> and
  \<^verbatim>\<open>{base_url}/repos/{org}/{repo}/commits?since={since_date}&page={page}&per_page=100\<close>.
  The \<open>since\<close> date is kept as a point in time (microseconds), not as its ISO text.
\<close>

datatype url =
    OrgRepos string string nat nat
  | RepoCommits string string string int nat nat

text \<open>A printed line: the text of the f-string, or the line that shows a URL.\<close>

datatype line = Text string | RequestingURL url

text \<open>
  How a path behaves when the report is written to it. \<open>Fine\<close>: it can be opened and
  written in full. \<open>NoOpen\<close>: \<^verbatim>\<open>open\<close> raises, and nothing happens to the file.
  \<open>Breaks i kept\<close>: the file is opened, and so emptied, and then writing fails: call
  number \<open>i\<close> of \<^verbatim>\<open>writerow\<close> raises (call \<open>0\<close> writes the header), or, when fewer calls
  are made, closing the file raises; what the file holds afterwards is not decided by
  the script (the rows go through a buffer): it is the first \<open>kept\<close> of the rows written
  until then.
\<close>

datatype disk = Fine | NoOpen | Breaks nat nat

text \<open>
  The world outside the script. The fixed part \<open>env\<close> holds the server (what it answers
  to a URL and a token, and how long a request takes), the order in which a Python set
  built by the given insertions is iterated, how each path behaves when written, and
  \<^verbatim>\<open>str.lower\<close> of the Python runtime, which lowers every cased character of Unicode and
  may change the length of the text. A \<open>str\<close> is kept as the list of its characters when
  it is ASCII, and of the bytes of its UTF-8 encoding otherwise; looking for a substring
  gives the same answer on the bytes as on the characters.
  The changing part \<open>world\<close> holds the clock read by \<^verbatim>\<open>datetime.now()\<close>, the lines
  printed so far, the URLs requested so far, the files (a CSV file as its rows of
  fields), and the contributor sets returned so far, each with its repository.
\<close>

record env =
  org_repos :: "url \<Rightarrow> string \<Rightarrow> repo_json list response"
  repo_commits :: "url \<Rightarrow> string \<Rightarrow> commit_json list response"
  took :: "url \<Rightarrow> nat"
  set_order :: "string list \<Rightarrow> string list"
  disk :: "string \<Rightarrow> disk"
  str_lower :: "string \<Rightarrow> string"

record world =
  clock :: int
  stdout :: "line list"
  requests :: "url list"
  files :: "string \<Rightarrow> string list list option"
  collected :: "(string \<times> string list) list"

record arguments =
  token :: string
  org :: string
  github_url :: string
  exclude :: string
  output_csv :: string
  debug :: bool

section \<open>Strings, sets and dictionaries of Python\<close>

text \<open>
  What \<^verbatim>\<open>str.lower()\<close> does on ASCII text: the letters \<open>A\<close> to \<open>Z\<close> become \<open>a\<close> to \<open>z\<close>,
  every other character stays. This is the lowering of the example worlds below, whose
  names are ASCII; the script itself calls the lowering of the Python runtime, which is
  the field \<open>str_lower\<close> of the environment.
\<close>

definition ascii_lower_char :: "char \<Rightarrow> char" where
  "ascii_lower_char c =
     (case map_of (zip ''ABCDEFGHIJKLMNOPQRSTUVWXYZ'' ''abcdefghijklmnopqrstuvwxyz'') c of
        None \<Rightarrow> c
      | Some l \<Rightarrow> l)"

definition ascii_lower :: "string \<Rightarrow> string" where
  "ascii_lower s = map ascii_lower_char s"

text \<open>\<^verbatim>\<open>str(n)\<close> of a natural number: its decimal digits.\<close>

definition digit :: "nat \<Rightarrow> char" where
  "digit d = ''0123456789'' ! d"

fun str :: "nat \<Rightarrow> string" where
  "str n = (if n < 10 then [digit n] else str (n div 10) @ [digit (n mod 10)])"

declare str.simps [simp del]

text \<open>
  \<^verbatim>\<open>contributors.add(x)\<close>: a Python set as the list of its elements in the order of
  their first insertion, without repetition.
\<close>

definition set_add :: "string \<Rightarrow> string list \<Rightarrow> string list" where
  "set_add x xs = (if x \<in> set xs then xs else xs @ [x])"

text \<open>
  A Python dict as an association list in insertion order.
  \<^verbatim>\<open>d.get(k, 0)\<close> and \<^verbatim>\<open>d[k] = v\<close> (an existing key keeps its place, a new key goes last).
\<close>

definition dict_get :: "(string \<times> nat) list \<Rightarrow> string \<Rightarrow> nat \<Rightarrow> nat" where
  "dict_get d k dflt = (case map_of d k of None \<Rightarrow> dflt | Some v \<Rightarrow> v)"

definition dict_set :: "(string \<times> nat) list \<Rightarrow> string \<Rightarrow> nat \<Rightarrow> (string \<times> nat) list" where
  "dict_set d k v = AList.update k v d"

definition print_line :: "line \<Rightarrow> world \<Rightarrow> world" where
  "print_line l s = s\<lparr>stdout := stdout s @ [l]\<rparr>"

definition timedelta_days_90 :: int where
  "timedelta_days_90 = 90 * 86400 * 1000000"

section \<open>The API client\<close>

text \<open>
  \<^verbatim>\<open>get_github_api(url, token, debug)\<close>. The request is logged and takes its time; the URL
  is printed after \<^verbatim>\<open>requests.get\<close> has returned and before the status is checked.
  The first argument is the server's answer for the kind of listing asked for.
\<close>

definition get_github_api ::
  "(url \<Rightarrow> string \<Rightarrow> 'a response) \<Rightarrow> env \<Rightarrow> url \<Rightarrow> string \<Rightarrow> bool \<Rightarrow> world \<Rightarrow> (error + 'a) \<times> world"
where
  "get_github_api server E u tok dbg s =
     (let s1 = s\<lparr>clock := clock s + int (took E u), requests := requests s @ [u]\<rparr>;
          s2 = (if dbg then print_line (RequestingURL u) s1 else s1)
      in case server u tok of
           Failed m \<Rightarrow> (Inl (RequestException m), s1)
         | BadStatus m \<Rightarrow> (Inl (RequestException m), s2)
         | Ok body \<Rightarrow> (Inr body, s2))"

section \<open>The repository lister\<close>

text \<open>The debug loop \<^verbatim>\<open>for repo in result: print(f"Repo name: {repo['name']}")\<close>.\<close>

fun print_repo_names :: "repo_json list \<Rightarrow> world \<Rightarrow> world" where
  "print_repo_names [] s = s"
| "print_repo_names (r # rs) s =
     print_repo_names rs (print_line (Text (''Repo name: '' @ name r)) s)"

text \<open>
  The loop over one page (lines 32 to 37): a repository whose name contains the
  non-empty exclude filter, both lowered, is skipped; any other name is appended.
\<close>

fun append_repos :: "env \<Rightarrow> string \<Rightarrow> repo_json list \<Rightarrow> string list \<Rightarrow> string list" where
  "append_repos E exclude_filter [] repos = repos"
| "append_repos E exclude_filter (r # rs) repos =
     (let repo_name = name r in
      if exclude_filter \<noteq> [] \<and> sublist (str_lower E exclude_filter) (str_lower E repo_name)
      then append_repos E exclude_filter rs repos
      else append_repos E exclude_filter rs (repos @ [repo_name]))"

text \<open>
  The \<^verbatim>\<open>while True\<close> loop of \<^verbatim>\<open>get_repositories\<close>, from the state \<open>(repos, page,
  total_fetched_repos)\<close>. It may run forever, on a server that never sends an empty page:
  then the value is \<open>None\<close>. The \<^verbatim>\<open>except\<close> clause catches \<open>RequestException\<close> only.
\<close>

partial_function (option) get_repositories_while ::
  "env \<Rightarrow> string \<Rightarrow> string \<Rightarrow> string \<Rightarrow> string \<Rightarrow> bool \<Rightarrow> string list \<Rightarrow> nat \<Rightarrow> nat \<Rightarrow> world
   \<Rightarrow> ((error + string list \<times> nat) \<times> world) option"
where
  "get_repositories_while E org_name tok base_url exclude_filter dbg repos page total_fetched_repos s =
     (case get_github_api (org_repos E) E (OrgRepos base_url org_name page 100) tok dbg s of
        (Inl e, s1) \<Rightarrow>
          (case e of
             RequestException m \<Rightarrow>
               Some (Inr (repos, total_fetched_repos),
                     print_line (Text (''Error fetching repositories: '' @ m)) s1)
           | KeyError m \<Rightarrow> Some (Inl e, s1)
           | IOError m \<Rightarrow> Some (Inl e, s1))
      | (Inr result, s1) \<Rightarrow>
          (let fetched_repos_count = length result;
               total = total_fetched_repos + fetched_repos_count;
               s2 = (if dbg
                     then print_repo_names result
                            (print_line (Text (''Fetched '' @ str fetched_repos_count
                               @ '' repositories on page '' @ str page @ ''.'')) s1)
                     else s1)
           in if result = [] then Some (Inr (repos, total), s2)
              else get_repositories_while E org_name tok base_url exclude_filter dbg
                     (append_repos E exclude_filter result repos) (page + 1) total s2))"

declare get_repositories_while.simps [code]

definition get_repositories ::
  "env \<Rightarrow> string \<Rightarrow> string \<Rightarrow> string \<Rightarrow> string \<Rightarrow> bool \<Rightarrow> world \<Rightarrow> ((error + string list) \<times> world) option"
where
  "get_repositories E org_name tok base_url exclude_filter dbg s =
     (case get_repositories_while E org_name tok base_url exclude_filter dbg [] 1 0 s of
        None \<Rightarrow> None
      | Some (Inl e, s1) \<Rightarrow> Some (Inl e, s1)
      | Some (Inr (repos, total_fetched_repos), s1) \<Rightarrow>
          Some (Inr repos,
                if dbg
                then print_line (Text (''Total repositories found (after filtering): ''
                                       @ str (length repos)))
                       (print_line (Text (''Total repositories fetched: ''
                                          @ str total_fetched_repos)) s1)
                else s1))"

section \<open>The contributor collector\<close>

text \<open>
  The loop over the commits of one page (lines 58 to 62). A commit object without the
  key \<open>author\<close> raises \<open>KeyError\<close>; a false author is skipped; a login is added.
\<close>

fun add_authors ::
  "bool \<Rightarrow> string \<Rightarrow> commit_json list \<Rightarrow> string list \<Rightarrow> world \<Rightarrow> (error + string list) \<times> world"
where
  "add_authors dbg repo [] contributors s = (Inr contributors, s)"
| "add_authors dbg repo (c # cs) contributors s =
     (case author c of
        Absent \<Rightarrow> (Inl (KeyError ''author''), s)
      | Null \<Rightarrow> add_authors dbg repo cs contributors s
      | EmptyObject \<Rightarrow> add_authors dbg repo cs contributors s
      | User l \<Rightarrow>
          add_authors dbg repo cs (set_add l contributors)
            (if dbg
             then print_line (Text (''Added contributor '' @ [CHR 0x27] @ l @ [CHR 0x27]
                    @ '' from repository '' @ [CHR 0x27] @ repo @ [CHR 0x27] @ ''.'')) s
             else s))"

text \<open>
  The \<^verbatim>\<open>while True\<close> loop of \<^verbatim>\<open>get_recent_contributors\<close>, from the state
  \<open>(contributors, page)\<close>, with the \<open>since_date\<close> computed before the loop. No exception is
  caught here. The debug line is printed after \<open>page\<close> has been incremented.
\<close>

partial_function (option) get_recent_contributors_while ::
  "env \<Rightarrow> string \<Rightarrow> string \<Rightarrow> string \<Rightarrow> string \<Rightarrow> bool \<Rightarrow> int \<Rightarrow> string list \<Rightarrow> nat \<Rightarrow> world
   \<Rightarrow> ((error + string list) \<times> world) option"
where
  "get_recent_contributors_while E org_name repo tok base_url dbg since_date contributors page s =
     (case get_github_api (repo_commits E) E
             (RepoCommits base_url org_name repo since_date page 100) tok dbg s of
        (Inl e, s1) \<Rightarrow> Some (Inl e, s1)
      | (Inr commits, s1) \<Rightarrow>
          if commits = [] then Some (Inr contributors, s1)
          else (case add_authors dbg repo commits contributors s1 of
                  (Inl e, s2) \<Rightarrow> Some (Inl e, s2)
                | (Inr contributors', s2) \<Rightarrow>
                    get_recent_contributors_while E org_name repo tok base_url dbg since_date
                      contributors' (page + 1)
                      (if dbg
                       then print_line (Text (''Processed page '' @ str (page + 1)
                              @ '' of commits for repository '' @ [CHR 0x27] @ repo
                              @ [CHR 0x27] @ ''.'')) s2
                       else s2)))"

declare get_recent_contributors_while.simps [code]

text \<open>
  \<^verbatim>\<open>get_recent_contributors\<close>: the cutoff is the clock at the call minus 90 days. The set
  returned is also recorded, with its repository, in \<open>collected\<close>.
\<close>

definition get_recent_contributors ::
  "env \<Rightarrow> string \<Rightarrow> string \<Rightarrow> string \<Rightarrow> string \<Rightarrow> bool \<Rightarrow> world \<Rightarrow> ((error + string list) \<times> world) option"
where
  "get_recent_contributors E org_name repo tok base_url dbg s =
     (let since_date = clock s - timedelta_days_90 in
      case get_recent_contributors_while E org_name repo tok base_url dbg since_date [] 1 s of
        None \<Rightarrow> None
      | Some (Inl e, s1) \<Rightarrow> Some (Inl e, s1)
      | Some (Inr contributors, s1) \<Rightarrow>
          Some (Inr contributors, s1\<lparr>collected := collected s1 @ [(repo, contributors)]\<rparr>))"

section \<open>The CSV writer\<close>

text \<open>
  \<^verbatim>\<open>writer.writerow(row)\<close> on the file open at \<open>filename\<close>: the row is added, unless
  this is the call at which the path breaks.
\<close>

definition writerow :: "env \<Rightarrow> string \<Rightarrow> string list \<Rightarrow> world \<Rightarrow> (error + unit) \<times> world" where
  "writerow E filename row s =
     (let rows = (case files s filename of None \<Rightarrow> [] | Some rows \<Rightarrow> rows);
          s1 = s\<lparr>files := (files s)(filename \<mapsto> rows @ [row])\<rparr>
      in case disk E filename of
           Fine \<Rightarrow> (Inr (), s1)
         | NoOpen \<Rightarrow> (Inr (), s1)
         | Breaks i kept \<Rightarrow> if length rows = i then (Inl (IOError filename), s) else (Inr (), s1))"

text \<open>The loop \<^verbatim>\<open>for developer, count in contributors_repo_count.items()\<close>.\<close>

fun write_rows ::
  "env \<Rightarrow> (string \<times> nat) list \<Rightarrow> string \<Rightarrow> bool \<Rightarrow> world \<Rightarrow> (error + unit) \<times> world"
where
  "write_rows E [] filename dbg s = (Inr (), s)"
| "write_rows E ((developer, count) # items) filename dbg s =
     (case writerow E filename [developer, str count] s of
        (Inl e, s1) \<Rightarrow> (Inl e, s1)
      | (Inr u, s1) \<Rightarrow>
          write_rows E items filename dbg
            (if dbg
             then print_line (Text (''Wrote developer '' @ [CHR 0x27] @ developer @ [CHR 0x27]
                    @ '' with count '' @ str count @ '' to CSV.'')) s1
             else s1))"

text \<open>
  Leaving the \<^verbatim>\<open>with\<close> block closes the file. On a path that breaks, the file is left
  with the rows that were kept, and closing raises.
\<close>

definition close_file :: "env \<Rightarrow> string \<Rightarrow> world \<Rightarrow> (error + unit) \<times> world" where
  "close_file E filename s =
     (case disk E filename of
        Fine \<Rightarrow> (Inr (), s)
      | NoOpen \<Rightarrow> (Inr (), s)
      | Breaks i kept \<Rightarrow>
          (Inl (IOError filename),
           s\<lparr>files := (files s)(filename \<mapsto>
                take kept (case files s filename of None \<Rightarrow> [] | Some rows \<Rightarrow> rows))\<rparr>))"

text \<open>
  \<^verbatim>\<open>write_to_csv\<close>: opening the file for writing either raises or leaves it empty; then
  the header and one row for each item of the dict are written. An exception raised
  inside the \<^verbatim>\<open>with\<close> block goes on after the file has been closed.
\<close>

definition write_to_csv ::
  "env \<Rightarrow> (string \<times> nat) list \<Rightarrow> string \<Rightarrow> bool \<Rightarrow> world \<Rightarrow> (error + unit) \<times> world"
where
  "write_to_csv E contributors_repo_count filename dbg s =
     (if disk E filename = NoOpen then (Inl (IOError filename), s)
      else
        let s1 = s\<lparr>files := (files s)(filename \<mapsto> [])\<rparr> in
        case (case writerow E filename [''Developer'', ''Number of Repos''] s1 of
                (Inl e, s2) \<Rightarrow> (Inl e, s2)
              | (Inr u, s2) \<Rightarrow> write_rows E contributors_repo_count filename dbg s2) of
          (Inl e, s3) \<Rightarrow> (Inl e, snd (close_file E filename s3))
        | (Inr u, s3) \<Rightarrow>
            (case close_file E filename s3 of
               (Inl e, s4) \<Rightarrow> (Inl e, s4)
             | (Inr u', s4) \<Rightarrow>
                 (Inr (),
                  if dbg
                  then print_line (Text (''CSV file '' @ [CHR 0x27] @ filename @ [CHR 0x27]
                         @ '' has been created.'')) s4
                  else s4)))"

section \<open>The entry point\<close>

text \<open>The loop \<^verbatim>\<open>for contributor in contributors\<close> of lines 93 to 96.\<close>

fun count_contributors ::
  "bool \<Rightarrow> string list \<Rightarrow> (string \<times> nat) list \<Rightarrow> world \<Rightarrow> (string \<times> nat) list \<times> world"
where
  "count_contributors dbg [] contributors_repo_count s = (contributors_repo_count, s)"
| "count_contributors dbg (contributor # rest) contributors_repo_count s =
     count_contributors dbg rest
       (dict_set contributors_repo_count contributor
          (dict_get contributors_repo_count contributor 0 + 1))
       (if dbg
        then print_line (Text (''Updating count for contributor '' @ [CHR 0x27] @ contributor
               @ [CHR 0x27] @ ''.'')) s
        else s)"

text \<open>The loop \<^verbatim>\<open>for repo in repos\<close> of lines 91 to 96.\<close>

fun main_for ::
  "env \<Rightarrow> arguments \<Rightarrow> string list \<Rightarrow> (string \<times> nat) list \<Rightarrow> world
   \<Rightarrow> ((error + (string \<times> nat) list) \<times> world) option"
where
  "main_for E a [] contributors_repo_count s = Some (Inr contributors_repo_count, s)"
| "main_for E a (repo # repos) contributors_repo_count s =
     (case get_recent_contributors E (org a) repo (token a) (github_url a) (debug a) s of
        None \<Rightarrow> None
      | Some (Inl e, s1) \<Rightarrow> Some (Inl e, s1)
      | Some (Inr contributors, s1) \<Rightarrow>
          (case count_contributors (debug a) (set_order E contributors) contributors_repo_count s1 of
             (d, s2) \<Rightarrow> main_for E a repos d s2))"

definition summary :: "string \<Rightarrow> nat \<Rightarrow> line" where
  "summary org_name n =
     Text (''Total unique developers in '' @ org_name
           @ '' who have committed in the past 90 days: '' @ str n)"

definition main :: "env \<Rightarrow> arguments \<Rightarrow> world \<Rightarrow> ((error + unit) \<times> world) option" where
  "main E a s =
     (case get_repositories E (org a) (token a) (github_url a) (exclude a) (debug a) s of
        None \<Rightarrow> None
      | Some (Inl e, s1) \<Rightarrow> Some (Inl e, s1)
      | Some (Inr repos, s1) \<Rightarrow>
          (case main_for E a repos [] s1 of
             None \<Rightarrow> None
           | Some (Inl e, s2) \<Rightarrow> Some (Inl e, s2)
           | Some (Inr contributors_repo_count, s2) \<Rightarrow>
               Some (write_to_csv E contributors_repo_count (output_csv a) (debug a)
                       (print_line (summary (org a) (length contributors_repo_count)) s2))))"

section \<open>Notions used in the statements\<close>

text \<open>A world with its printed lines forgotten: what a run leaves behind apart from its output.\<close>

definition quiet :: "world \<Rightarrow> world" where
  "quiet s = s\<lparr>stdout := []\<rparr>"

text \<open>The effect of sending one request: the clock advances by the time it takes, the URL is logged.\<close>

definition sent :: "env \<Rightarrow> url \<Rightarrow> world \<Rightarrow> world" where
  "sent E u s = s\<lparr>clock := clock s + int (took E u), requests := requests s @ [u]\<rparr>"

text \<open>
  The specification's words: the substring occurs case-insensitively within the name
  when, both being lowered by Python, the substring is a stretch of the name; a name is
  included if and only if the substring is empty or does not occur case-insensitively
  in it.
\<close>

definition occurs_ci :: "env \<Rightarrow> string \<Rightarrow> string \<Rightarrow> bool" where
  "occurs_ci E sub s \<longleftrightarrow> (\<exists>pre suf. str_lower E s = pre @ str_lower E sub @ suf)"

definition included :: "env \<Rightarrow> string \<Rightarrow> string \<Rightarrow> bool" where
  "included E sub n \<longleftrightarrow> sub = [] \<or> \<not> occurs_ci E sub n"

text \<open>
  On ASCII text the same can be said without any lowering. Two characters are the same
  letter when they are equal or are the upper-case and the lower-case form of one
  letter; the substring occurs in the name, the case of letters ignored, when some
  stretch of the name has the length of the substring and agrees with it letter by
  letter.
\<close>

definition same_letter :: "char \<Rightarrow> char \<Rightarrow> bool" where
  "same_letter c d \<longleftrightarrow>
     c = d
     \<or> (c, d) \<in> set (zip ''ABCDEFGHIJKLMNOPQRSTUVWXYZ'' ''abcdefghijklmnopqrstuvwxyz'')
     \<or> (d, c) \<in> set (zip ''ABCDEFGHIJKLMNOPQRSTUVWXYZ'' ''abcdefghijklmnopqrstuvwxyz'')"

definition occurs_ignoring_case :: "string \<Rightarrow> string \<Rightarrow> bool" where
  "occurs_ignoring_case sub s \<longleftrightarrow>
     (\<exists>pre mid suf. s = pre @ mid @ suf \<and> list_all2 same_letter mid sub)"

text \<open>A path that can be opened and written in full.\<close>

definition writable :: "env \<Rightarrow> string \<Rightarrow> bool" where
  "writable E filename \<longleftrightarrow> disk E filename = Fine"

text \<open>The logins of the commits of a page that carry a user as author, in the page's order.\<close>

definition logins :: "commit_json list \<Rightarrow> string list" where
  "logins commits = concat (map (\<lambda>c. case author c of User l \<Rightarrow> [l] | _ \<Rightarrow> []) commits)"

text \<open>
  The pages on which the two loops go on: a successful, non-empty page (and, for the
  commits, one where no commit lacks the \<open>author\<close> key). \<open>collector_end\<close> is what the
  collector returns on any other answer.
\<close>

definition more_repos :: "env \<Rightarrow> url \<Rightarrow> string \<Rightarrow> bool" where
  "more_repos E u tok = (case org_repos E u tok of Ok r \<Rightarrow> r \<noteq> [] | _ \<Rightarrow> False)"

definition more_commits :: "env \<Rightarrow> url \<Rightarrow> string \<Rightarrow> bool" where
  "more_commits E u tok =
     (case repo_commits E u tok of
        Ok commits \<Rightarrow> commits \<noteq> [] \<and> list_all (\<lambda>c. author c \<noteq> Absent) commits
      | _ \<Rightarrow> False)"

definition page_of :: "'a list response \<Rightarrow> 'a list" where
  "page_of r = (case r of Ok b \<Rightarrow> b | _ \<Rightarrow> [])"

definition collector_end :: "commit_json list response \<Rightarrow> string list \<Rightarrow> error + string list" where
  "collector_end r contributors =
     (case r of
        Failed m \<Rightarrow> Inl (RequestException m)
      | BadStatus m \<Rightarrow> Inl (RequestException m)
      | Ok commits \<Rightarrow> if commits = [] then Inr contributors else Inl (KeyError ''author''))"

text \<open>
  A listing that goes on for \<open>k\<close> pages from page \<open>p\<close> and stops at page \<open>p + k\<close>; the
  items of those \<open>k\<close> pages in the order the server returns them; the URLs of the
  \<open>k\<close> requests.
\<close>

definition repos_run :: "env \<Rightarrow> string \<Rightarrow> string \<Rightarrow> string \<Rightarrow> nat \<Rightarrow> nat \<Rightarrow> bool" where
  "repos_run E b og tok p k \<longleftrightarrow>
     list_all (\<lambda>i. more_repos E (OrgRepos b og i 100) tok) [p..<p + k]
     \<and> \<not> more_repos E (OrgRepos b og (p + k) 100) tok"

definition repos_pages :: "env \<Rightarrow> string \<Rightarrow> string \<Rightarrow> string \<Rightarrow> nat \<Rightarrow> nat \<Rightarrow> repo_json list" where
  "repos_pages E b og tok p k =
     concat (map (\<lambda>i. page_of (org_repos E (OrgRepos b og i 100) tok)) [p..<p + k])"

definition repos_urls :: "string \<Rightarrow> string \<Rightarrow> nat \<Rightarrow> nat \<Rightarrow> url list" where
  "repos_urls b og p k = map (\<lambda>i. OrgRepos b og i 100) [p..<p + k]"

definition commits_run :: "env \<Rightarrow> string \<Rightarrow> string \<Rightarrow> string \<Rightarrow> int \<Rightarrow> string \<Rightarrow> nat \<Rightarrow> nat \<Rightarrow> bool" where
  "commits_run E b og repo since tok p k \<longleftrightarrow>
     list_all (\<lambda>i. more_commits E (RepoCommits b og repo since i 100) tok) [p..<p + k]
     \<and> \<not> more_commits E (RepoCommits b og repo since (p + k) 100) tok"

definition commits_pages ::
  "env \<Rightarrow> string \<Rightarrow> string \<Rightarrow> string \<Rightarrow> int \<Rightarrow> string \<Rightarrow> nat \<Rightarrow> nat \<Rightarrow> commit_json list" where
  "commits_pages E b og repo since tok p k =
     concat (map (\<lambda>i. page_of (repo_commits E (RepoCommits b og repo since i 100) tok)) [p..<p + k])"

definition commits_urls :: "string \<Rightarrow> string \<Rightarrow> string \<Rightarrow> int \<Rightarrow> nat \<Rightarrow> nat \<Rightarrow> url list" where
  "commits_urls b og repo since p k = map (\<lambda>i. RepoCommits b og repo since i 100) [p..<p + k]"

text \<open>
  What one call of the collector returns on a listing of \<open>k\<close> pages, and what it leaves
  in the record of returned sets.
\<close>

definition contributors_of ::
  "env \<Rightarrow> string \<Rightarrow> string \<Rightarrow> string \<Rightarrow> int \<Rightarrow> string \<Rightarrow> nat \<Rightarrow> string list" where
  "contributors_of E b og repo since tok k =
     fold set_add (logins (commits_pages E b og repo since tok 1 k)) []"

definition collector_outcome ::
  "env \<Rightarrow> string \<Rightarrow> string \<Rightarrow> string \<Rightarrow> int \<Rightarrow> string \<Rightarrow> nat \<Rightarrow> error + string list" where
  "collector_outcome E b og repo since tok k =
     collector_end (repo_commits E (RepoCommits b og repo since (1 + k) 100) tok)
       (contributors_of E b og repo since tok k)"

definition record_set :: "string \<Rightarrow> error + string list \<Rightarrow> world \<Rightarrow> world" where
  "record_set repo r s =
     (case r of Inl e \<Rightarrow> s | Inr cs \<Rightarrow> s\<lparr>collected := collected s @ [(repo, cs)]\<rparr>)"

text \<open>
  What the loop over one contributor set does to the dict: one is added to the count of
  every login met, in the order met. \<open>iterates_once\<close> is what Python promises of the
  iteration over a set: every element is met exactly once.
\<close>

definition bump :: "string list \<Rightarrow> (string \<times> nat) list \<Rightarrow> (string \<times> nat) list" where
  "bump xs d = fold (\<lambda>k d. dict_set d k (dict_get d k 0 + 1)) xs d"

definition iterates_once :: "env \<Rightarrow> bool" where
  "iterates_once E \<longleftrightarrow>
     (\<forall>xs. distinct xs \<longrightarrow> distinct (set_order E xs) \<and> set (set_order E xs) = set xs)"

text \<open>
  The rows of the report for a dict: the header, then one row for each entry, in the
  dict's order. \<open>repos_with l sets\<close> counts the returned contributor sets that contain
  the login \<open>l\<close>.
\<close>

definition csv_rows :: "(string \<times> nat) list \<Rightarrow> string list list" where
  "csv_rows d =
     [''Developer'', ''Number of Repos''] # map (\<lambda>(developer, count). [developer, str count]) d"

definition repos_with :: "string \<Rightarrow> (string \<times> string list) list \<Rightarrow> nat" where
  "repos_with l sets = length (filter (\<lambda>(repo, cs). l \<in> set cs) sets)"

text \<open>
  The number of distinct repository names among the returned contributor sets that
  contain the login \<open>l\<close>.
\<close>

definition distinct_repos_with :: "string \<Rightarrow> (string \<times> string list) list \<Rightarrow> nat" where
  "distinct_repos_with l sets =
     length (remdups (map fst (filter (\<lambda>(repo, cs). l \<in> set cs) sets)))"

text \<open>The time that a sequence of requests takes.\<close>

definition elapsed :: "env \<Rightarrow> url list \<Rightarrow> int" where
  "elapsed E us = (\<Sum>u\<leftarrow>us. int (took E u))"

text \<open>
  The commit listings of a run, in the specification's words: the repositories are
  taken one after the other; the listing of a repository, of \<open>k\<close> pages of commits and
  the empty page that ends it, is requested with the cutoff "the time of this call
  minus 90 days"; the next call is made when these \<open>k + 1\<close> requests are over.
  \<open>all_return\<close> says that the server answers each of these listings by \<open>k\<close> pages of
  commits and an empty page. \<open>cutoffs\<close> reads the \<open>since\<close> parameters that a sequence of
  requested URLs carries.
\<close>

fun collector_requests :: "env \<Rightarrow> arguments \<Rightarrow> int \<Rightarrow> (string \<times> nat) list \<Rightarrow> url list" where
  "collector_requests E a now [] = []"
| "collector_requests E a now ((repo, k) # rks) =
     (let us = commits_urls (github_url a) (org a) repo (now - timedelta_days_90) 1 (Suc k)
      in us @ collector_requests E a (now + elapsed E us) rks)"

fun all_return :: "env \<Rightarrow> arguments \<Rightarrow> int \<Rightarrow> (string \<times> nat) list \<Rightarrow> bool" where
  "all_return E a now [] = True"
| "all_return E a now ((repo, k) # rks) =
     (let since = now - timedelta_days_90;
          us = commits_urls (github_url a) (org a) repo since 1 (Suc k)
      in commits_run E (github_url a) (org a) repo since (token a) 1 k
         \<and> repo_commits E (RepoCommits (github_url a) (org a) repo since (1 + k) 100) (token a) = Ok []
         \<and> all_return E a (now + elapsed E us) rks)"

definition cutoffs :: "url list \<Rightarrow> int list" where
  "cutoffs us =
     concat (map (\<lambda>u. case u of RepoCommits b og r sn p n \<Rightarrow> [sn] | OrgRepos b og p n \<Rightarrow> []) us)"

section \<open>Example worlds\<close>

text \<open>
  The end-to-end scenario of the specification: the organization has the repositories
  \<open>api\<close>, \<open>api-legacy\<close> and \<open>web\<close> on one page; \<open>api\<close> has commits by \<open>alice\<close> and \<open>bob\<close>
  and one commit without a linked author, \<open>web\<close> has one commit by \<open>alice\<close>. Every request
  takes a quarter of a second.
\<close>

definition acme :: env where
  "acme = \<lparr>
     org_repos = (\<lambda>u tok. case u of
        OrgRepos b og p n \<Rightarrow>
          if p = 1 then Ok [\<lparr>name = ''api''\<rparr>, \<lparr>name = ''api-legacy''\<rparr>, \<lparr>name = ''web''\<rparr>]
          else Ok []
      | RepoCommits b og r sn p n \<Rightarrow> BadStatus ''404''),
     repo_commits = (\<lambda>u tok. case u of
        OrgRepos b og p n \<Rightarrow> BadStatus ''404''
      | RepoCommits b og r sn p n \<Rightarrow>
          if p = 1 \<and> r = ''api''
          then Ok [\<lparr>author = User ''alice''\<rparr>, \<lparr>author = Null\<rparr>,
                   \<lparr>author = User ''bob''\<rparr>, \<lparr>author = User ''alice''\<rparr>]
          else if p = 1 \<and> r = ''web'' then Ok [\<lparr>author = User ''alice''\<rparr>]
          else Ok []),
     took = (\<lambda>u. 250000),
     set_order = (\<lambda>xs. xs),
     disk = (\<lambda>f. Fine),
     str_lower = ascii_lower\<rparr>"

definition acme_args :: arguments where
  "acme_args = \<lparr>token = ''t'', org = ''acme'', github_url = ''https://api.github.com'',
                 exclude = ''Legacy'', output_csv = ''out.csv'', debug = False\<rparr>"

definition world0 :: world where
  "world0 = \<lparr>clock = 0, stdout = [], requests = [], files = Map.empty, collected = []\<rparr>"

text \<open>
  A repository with three commits in the window, two by \<open>alice\<close> and one whose author is
  \<open>null\<close>; and a repository one of whose commit objects has no \<open>author\<close> key at all.
\<close>

definition three_commits :: env where
  "three_commits = \<lparr>
     org_repos = (\<lambda>u tok. Ok []),
     repo_commits = (\<lambda>u tok. case u of
        OrgRepos b og p n \<Rightarrow> BadStatus ''404''
      | RepoCommits b og r sn p n \<Rightarrow>
          if p = 1
          then Ok [\<lparr>author = User ''alice''\<rparr>, \<lparr>author = Null\<rparr>, \<lparr>author = User ''alice''\<rparr>]
          else Ok []),
     took = (\<lambda>u. 250000),
     set_order = (\<lambda>xs. xs),
     disk = (\<lambda>f. Fine),
     str_lower = ascii_lower\<rparr>"

definition no_author_key :: env where
  "no_author_key = \<lparr>
     org_repos = (\<lambda>u tok. Ok []),
     repo_commits = (\<lambda>u tok. case u of
        OrgRepos b og p n \<Rightarrow> BadStatus ''404''
      | RepoCommits b og r sn p n \<Rightarrow>
          if p = 1 then Ok [\<lparr>author = User ''alice''\<rparr>, \<lparr>author = Absent\<rparr>] else Ok []),
     took = (\<lambda>u. 250000),
     set_order = (\<lambda>xs. xs),
     disk = (\<lambda>f. Fine),
     str_lower = ascii_lower\<rparr>"

text \<open>
  A listing whose only non-empty page is full: exactly 100 repositories, and for each
  repository exactly 100 commits, on page 1.
\<close>

definition full_page :: env where
  "full_page = \<lparr>
     org_repos = (\<lambda>u tok. case u of
        OrgRepos b og p n \<Rightarrow> if p = 1 then Ok (replicate 100 \<lparr>name = ''r''\<rparr>) else Ok []
      | RepoCommits b og r sn p n \<Rightarrow> BadStatus ''404''),
     repo_commits = (\<lambda>u tok. case u of
        OrgRepos b og p n \<Rightarrow> BadStatus ''404''
      | RepoCommits b og r sn p n \<Rightarrow>
          if p = 1 then Ok (replicate 100 \<lparr>author = User ''alice''\<rparr>) else Ok []),
     took = (\<lambda>u. 250000),
     set_order = (\<lambda>xs. xs),
     disk = (\<lambda>f. Fine),
     str_lower = ascii_lower\<rparr>"

text \<open>A world in which the report file already exists, with other rows.\<close>

definition stale_report :: world where
  "stale_report = world0\<lparr>files := [''out.csv'' \<mapsto> [[''old'', ''rows''], [''of'', ''before'']]]\<rparr>"

text \<open>An organization whose listing returns the same repository twice.\<close>

definition listed_twice :: env where
  "listed_twice = \<lparr>
     org_repos = (\<lambda>u tok. case u of
        OrgRepos b og p n \<Rightarrow> if p = 1 then Ok [\<lparr>name = ''api''\<rparr>, \<lparr>name = ''api''\<rparr>] else Ok []
      | RepoCommits b og r sn p n \<Rightarrow> BadStatus ''404''),
     repo_commits = (\<lambda>u tok. case u of
        OrgRepos b og p n \<Rightarrow> BadStatus ''404''
      | RepoCommits b og r sn p n \<Rightarrow> if p = 1 then Ok [\<lparr>author = User ''alice''\<rparr>] else Ok []),
     took = (\<lambda>u. 250000),
     set_order = (\<lambda>xs. xs),
     disk = (\<lambda>f. Fine),
     str_lower = ascii_lower\<rparr>"

text \<open>The scenario of \<open>acme\<close> where the report file cannot be opened for writing.\<close>

definition read_only :: env where
  "read_only = acme\<lparr>disk := (\<lambda>f. NoOpen)\<rparr>"

text \<open>
  The same organization, with a disk that fills up: the report can be opened, the header
  and the first row are accepted, and the second row is refused; of the two rows
  written, one is left in the file.
\<close>

definition disk_full :: env where
  "disk_full = acme\<lparr>disk := (\<lambda>f. Breaks 2 1)\<rparr>"

text \<open>The arguments of the scenario with \<^verbatim>\<open>--debug\<close>.\<close>

definition verbose_args :: arguments where
  "verbose_args = acme_args\<lparr>debug := True\<rparr>"

text \<open>An organization without repositories: page 1 of the listing is empty.\<close>

definition empty_org :: env where
  "empty_org = \<lparr>
     org_repos = (\<lambda>u tok. Ok []),
     repo_commits = (\<lambda>u tok. BadStatus ''404''),
     took = (\<lambda>u. 250000),
     set_order = (\<lambda>xs. xs),
     disk = (\<lambda>f. Fine),
     str_lower = ascii_lower\<rparr>"


text \<open>An organization whose repository names mix upper and lower case.\<close>

definition mixed_case :: env where
  "mixed_case = \<lparr>
     org_repos = (\<lambda>u tok. case u of
        OrgRepos b og p n \<Rightarrow>
          if p = 1
          then Ok [\<lparr>name = ''API''\<rparr>, \<lparr>name = ''Api-LEGACY-v2''\<rparr>,
                   \<lparr>name = ''web-frontend''\<rparr>, \<lparr>name = ''legacy''\<rparr>]
          else Ok []
      | RepoCommits b og r sn p n \<Rightarrow> BadStatus ''404''),
     repo_commits = (\<lambda>u tok. Ok []),
     took = (\<lambda>u. 250000),
     set_order = (\<lambda>xs. xs),
     disk = (\<lambda>f. Fine),
     str_lower = ascii_lower\<rparr>"

text \<open>
  An organization with a repository name outside ASCII, \<open>CAF\<close> followed by the capital
  letter E with acute accent (U+00C9, in UTF-8 the bytes C3 89). The lowering of this
  world does on that letter what Python does: it becomes the small letter e with acute
  accent (U+00E9, the bytes C3 A9); ASCII letters are lowered as before.
\<close>

fun latin_lower :: "string \<Rightarrow> string" where
  "latin_lower [] = []"
| "latin_lower [c] = [ascii_lower_char c]"
| "latin_lower (c # d # s) =
     (if c = CHR 0xC3 \<and> d = CHR 0x89 then CHR 0xC3 # CHR 0xA9 # latin_lower s
      else ascii_lower_char c # latin_lower (d # s))"

definition cafe :: env where
  "cafe = \<lparr>
     org_repos = (\<lambda>u tok. case u of
        OrgRepos b og p n \<Rightarrow>
          if p = 1
          then Ok [\<lparr>name = ''CAF'' @ [CHR 0xC3, CHR 0x89]\<rparr>, \<lparr>name = ''bar''\<rparr>]
          else Ok []
      | RepoCommits b og r sn p n \<Rightarrow> BadStatus ''404''),
     repo_commits = (\<lambda>u tok. Ok []),
     took = (\<lambda>u. 250000),
     set_order = (\<lambda>xs. xs),
     disk = (\<lambda>f. Fine),
     str_lower = latin_lower\<rparr>"

section \<open>Basic facts\<close>

lemma print_line_fields [simp]:
  "clock (print_line l s) = clock s"
  "requests (print_line l s) = requests s"
  "files (print_line l s) = files s"
  "collected (print_line l s) = collected s"
  "stdout (print_line l s) = stdout s @ [l]"
  by (simp_all add: print_line_def)

lemma quiet_print_line [simp]: "quiet (print_line l s) = quiet s"
  by (simp add: quiet_def print_line_def)

lemma quiet_fields [simp]:
  "clock (quiet s) = clock s"
  "requests (quiet s) = requests s"
  "files (quiet s) = files s"
  "collected (quiet s) = collected s"
  "stdout (quiet s) = []"
  by (simp_all add: quiet_def)

lemma quiet_eqD:
  "quiet s = quiet t \<Longrightarrow>
     clock s = clock t \<and> requests s = requests t \<and> files s = files t \<and> collected s = collected t"
  by (metis quiet_fields(1-4))

lemma quiet_print_repo_names [simp]: "quiet (print_repo_names rs s) = quiet s"
  by (induction rs arbitrary: s) simp_all

lemma sent_fields [simp]:
  "clock (sent E u s) = clock s + int (took E u)"
  "requests (sent E u s) = requests s @ [u]"
  "files (sent E u s) = files s"
  "collected (sent E u s) = collected s"
  "stdout (sent E u s) = stdout s"
  by (simp_all add: sent_def)

lemma quiet_sent: "quiet (sent E u s) = sent E u (quiet s)"
  by (simp add: quiet_def sent_def)

lemma get_github_api_cases:
  "get_github_api server E u tok dbg s =
     (case server u tok of
        Failed m \<Rightarrow> (Inl (RequestException m), sent E u s)
      | BadStatus m \<Rightarrow>
          (Inl (RequestException m),
           if dbg then print_line (RequestingURL u) (sent E u s) else sent E u s)
      | Ok body \<Rightarrow>
          (Inr body, if dbg then print_line (RequestingURL u) (sent E u s) else sent E u s))"
  by (simp add: get_github_api_def sent_def Let_def split: response.splits)

lemma occurs_ci_sublist: "occurs_ci E sub s \<longleftrightarrow> sublist (str_lower E sub) (str_lower E s)"
  by (simp add: occurs_ci_def sublist_def)

lemma table_lookup_eq:
  fixes us ls :: "'a list"
  assumes len: "length us = length ls" and du: "distinct us" and dl: "distinct ls"
    and disj: "set us \<inter> set ls = {}"
  shows "(case map_of (zip us ls) c of None \<Rightarrow> c | Some l \<Rightarrow> l)
         = (case map_of (zip us ls) d of None \<Rightarrow> d | Some l \<Rightarrow> l)
         \<longleftrightarrow> c = d \<or> (c, d) \<in> set (zip us ls) \<or> (d, c) \<in> set (zip us ls)"
proof -
  let ?T = "zip us ls"
  have keys: "map fst ?T = us" and vals: "map snd ?T = ls"
    using len by simp_all
  have dk: "distinct (map fst ?T)" using du keys by simp
  have some: "\<And>x y. map_of ?T x = Some y \<longleftrightarrow> (x, y) \<in> set ?T"
    using dk by (rule map_of_eq_Some_iff)
  have none: "\<And>x. map_of ?T x = None \<longleftrightarrow> x \<notin> set us"
    using keys by (metis map_of_eq_None_iff set_map)
  have left: "\<And>x y. (x, y) \<in> set ?T \<Longrightarrow> x \<in> set us"
    by (rule set_zip_leftD)
  have right: "\<And>x y. (x, y) \<in> set ?T \<Longrightarrow> y \<in> set ls"
    by (rule set_zip_rightD)
  have inj: "\<And>x x' y. (x, y) \<in> set ?T \<Longrightarrow> (x', y) \<in> set ?T \<Longrightarrow> x = x'"
  proof -
    fix x x' y assume a: "(x, y) \<in> set ?T" "(x', y) \<in> set ?T"
    from dl vals have "distinct (map snd ?T)" by simp
    then have "inj_on snd (set ?T)" by (simp add: distinct_map)
    from inj_onD [OF this, of "(x, y)" "(x', y)"] a show "x = x'" by simp
  qed
  have fn: "\<And>x y y'. (x, y) \<in> set ?T \<Longrightarrow> (x, y') \<in> set ?T \<Longrightarrow> y = y'"
    using some by (metis option.inject)
  show ?thesis
  proof (cases "map_of ?T c")
    case None
    note cn = None
    then have c: "c \<notin> set us" by (simp add: none)
    show ?thesis
    proof (cases "map_of ?T d")
      case None
      then have "d \<notin> set us" by (simp add: none)
      with c cn None left show ?thesis by auto
    next
      case (Some ld)
      then have d: "(d, ld) \<in> set ?T" by (simp add: some)
      with cn Some c left right fn disj show ?thesis by auto
    qed
  next
    case (Some lc)
    note cs = Some
    then have c: "(c, lc) \<in> set ?T" by (simp add: some)
    show ?thesis
    proof (cases "map_of ?T d")
      case None
      then have "d \<notin> set us" by (simp add: none)
      with cs None c left right fn disj show ?thesis by auto
    next
      case (Some ld)
      then have d: "(d, ld) \<in> set ?T" by (simp add: some)
      have "lc = ld \<longleftrightarrow> c = d" using c d inj fn by blast
      moreover have "(c, d) \<notin> set ?T" using d left right disj by blast
      moreover have "(d, c) \<notin> set ?T" using c left right disj by blast
      ultimately show ?thesis using cs Some by simp
    qed
  qed
qed

lemma ascii_lower_char_eq: "ascii_lower_char c = ascii_lower_char d \<longleftrightarrow> same_letter c d"
  unfolding ascii_lower_char_def same_letter_def
  by (rule table_lookup_eq) (simp_all add: disjoint_iff)

lemma ascii_lower_eq: "ascii_lower xs = ascii_lower ys \<longleftrightarrow> list_all2 same_letter xs ys"
proof -
  have "ascii_lower xs = ascii_lower ys \<longleftrightarrow>
        list_all2 (=) (map ascii_lower_char xs) (map ascii_lower_char ys)"
    by (simp add: ascii_lower_def list.rel_eq)
  also have "\<dots> \<longleftrightarrow> list_all2 (\<lambda>x y. ascii_lower_char x = ascii_lower_char y) xs ys"
    by (simp add: list_all2_map1 list_all2_map2)
  finally show ?thesis by (simp add: ascii_lower_char_eq)
qed

lemma ascii_occurs:
  "sublist (ascii_lower sub) (ascii_lower s) \<longleftrightarrow> occurs_ignoring_case sub s"
proof
  assume "occurs_ignoring_case sub s"
  then obtain pre mid suf where "s = pre @ mid @ suf" "ascii_lower mid = ascii_lower sub"
    by (auto simp: occurs_ignoring_case_def ascii_lower_eq)
  then have "ascii_lower s = ascii_lower pre @ ascii_lower sub @ ascii_lower suf"
    by (simp add: ascii_lower_def)
  then show "sublist (ascii_lower sub) (ascii_lower s)"
    by (auto simp: sublist_def)
next
  assume "sublist (ascii_lower sub) (ascii_lower s)"
  then obtain ps ss where eq: "map ascii_lower_char s = ps @ ascii_lower sub @ ss"
    by (auto simp: sublist_def ascii_lower_def)
  then have "\<exists>us vs. s = us @ vs \<and> ps = map ascii_lower_char us
               \<and> ascii_lower sub @ ss = map ascii_lower_char vs"
    by (simp only: map_eq_append_conv)
  then obtain pre rest where s: "s = pre @ rest"
    and rest: "ascii_lower sub @ ss = map ascii_lower_char rest"
    by blast
  from rest have "\<exists>us vs. rest = us @ vs \<and> ascii_lower sub = map ascii_lower_char us
                    \<and> ss = map ascii_lower_char vs"
    by (simp only: append_eq_map_conv)
  then obtain mid suf where "rest = mid @ suf" "ascii_lower sub = map ascii_lower_char mid"
    by blast
  with s have "s = pre @ mid @ suf \<and> ascii_lower mid = ascii_lower sub"
    by (simp add: ascii_lower_def)
  then have "s = pre @ mid @ suf \<and> list_all2 same_letter mid sub"
    by (simp add: ascii_lower_eq)
  then show "occurs_ignoring_case sub s"
    unfolding occurs_ignoring_case_def by blast
qed

lemma append_repos_filter:
  "append_repos E ex rs repos = repos @ filter (included E ex) (map name rs)"
  by (induction rs arbitrary: repos) (auto simp: included_def occurs_ci_sublist)

lemma lister_stop:
  assumes "\<forall>r. org_repos E (OrgRepos b og p 100) tok = Ok r \<longrightarrow> r = []"
  shows "\<exists>s2. get_repositories_while E og tok b ex dbg repos p tot s = Some (Inr (repos, tot), s2)
           \<and> quiet s2 = sent E (OrgRepos b og p 100) (quiet s)"
proof (cases "org_repos E (OrgRepos b og p 100) tok")
  case (Failed m)
  then show ?thesis
    by (subst get_repositories_while.simps) (simp add: get_github_api_cases quiet_sent)
next
  case (BadStatus m)
  then show ?thesis
    by (subst get_repositories_while.simps) (simp add: get_github_api_cases quiet_sent)
next
  case (Ok r)
  with assms have "r = []" by simp
  with Ok show ?thesis
    by (subst get_repositories_while.simps) (simp add: get_github_api_cases quiet_sent)
qed

lemma lister_more:
  assumes "org_repos E (OrgRepos b og p 100) tok = Ok result" and "result \<noteq> []"
  shows "\<exists>s2. get_repositories_while E og tok b ex dbg repos p tot s =
              get_repositories_while E og tok b ex dbg
                (repos @ filter (included E ex) (map name result)) (Suc p) (tot + length result) s2
           \<and> quiet s2 = sent E (OrgRepos b og p 100) (quiet s)"
  using assms
  apply (subst get_repositories_while.simps)
  apply (simp add: get_github_api_cases append_repos_filter Let_def)
  apply (intro conjI impI)
   apply (rule exI, rule conjI, rule refl, simp add: quiet_sent)+
  done

lemma fold_sent_fields [simp]:
  "requests (fold (sent E) us s) = requests s @ us"
  "clock (fold (sent E) us s) = clock s + (\<Sum>u\<leftarrow>us. int (took E u))"
  "files (fold (sent E) us s) = files s"
  "collected (fold (sent E) us s) = collected s"
  "stdout (fold (sent E) us s) = stdout s"
  by (induction us arbitrary: s) simp_all

lemma lister_pages:
  assumes "\<forall>i<k. org_repos E (OrgRepos b og (p + i) 100) tok = Ok (pg (p + i)) \<and> pg (p + i) \<noteq> []"
  shows "\<exists>s2 tot2.
           get_repositories_while E og tok b ex dbg repos p tot s =
             get_repositories_while E og tok b ex dbg
               (repos @ filter (included E ex) (map name (concat (map pg [p..<p + k])))) (p + k) tot2 s2
           \<and> quiet s2 = fold (sent E) (map (\<lambda>i. OrgRepos b og i 100) [p..<p + k]) (quiet s)"
  using assms
proof (induction k arbitrary: p repos tot s)
  case 0
  then show ?case by auto
next
  case (Suc k)
  from Suc.prems have first: "org_repos E (OrgRepos b og p 100) tok = Ok (pg p)" "pg p \<noteq> []"
    by (metis add.right_neutral zero_less_Suc)+
  from Suc.prems have rest:
    "\<forall>i<k. org_repos E (OrgRepos b og (Suc p + i) 100) tok = Ok (pg (Suc p + i)) \<and> pg (Suc p + i) \<noteq> []"
    by (metis Suc_less_eq add_Suc_shift)
  from lister_more [OF first] obtain s1 where
    step: "get_repositories_while E og tok b ex dbg repos p tot s =
             get_repositories_while E og tok b ex dbg
               (repos @ filter (included E ex) (map name (pg p))) (Suc p) (tot + length (pg p)) s1"
    and q1: "quiet s1 = sent E (OrgRepos b og p 100) (quiet s)"
    by blast
  from Suc.IH [OF rest] obtain s2 tot2 where
    run: "get_repositories_while E og tok b ex dbg
            (repos @ filter (included E ex) (map name (pg p))) (Suc p) (tot + length (pg p)) s1 =
          get_repositories_while E og tok b ex dbg
            ((repos @ filter (included E ex) (map name (pg p)))
               @ filter (included E ex) (map name (concat (map pg [Suc p..<Suc p + k]))))
            (Suc p + k) tot2 s2"
    and q2: "quiet s2 = fold (sent E) (map (\<lambda>i. OrgRepos b og i 100) [Suc p..<Suc p + k]) (quiet s1)"
    by blast
  have upt: "[p..<p + Suc k] = p # [Suc p..<Suc p + k]"
    by (simp add: upt_rec)
  show ?case
    apply (rule exI [of _ s2], rule exI [of _ tot2])
    apply (simp only: step run upt q2 q1)
    apply simp
    done
qed

lemma lister_run:
  assumes "\<forall>i<k. org_repos E (OrgRepos b og (p + i) 100) tok = Ok (pg (p + i)) \<and> pg (p + i) \<noteq> []"
    and "\<forall>r. org_repos E (OrgRepos b og (p + k) 100) tok = Ok r \<longrightarrow> r = []"
  shows "\<exists>s2 tot2.
           get_repositories_while E og tok b ex dbg repos p tot s =
             Some (Inr (repos @ filter (included E ex) (map name (concat (map pg [p..<p + k]))), tot2), s2)
           \<and> quiet s2 = fold (sent E) (map (\<lambda>i. OrgRepos b og i 100) [p..<Suc (p + k)]) (quiet s)"
proof -
  from lister_pages [OF assms(1)] obtain s1 tot1 where
    run: "get_repositories_while E og tok b ex dbg repos p tot s =
            get_repositories_while E og tok b ex dbg
              (repos @ filter (included E ex) (map name (concat (map pg [p..<p + k])))) (p + k) tot1 s1"
    and q1: "quiet s1 = fold (sent E) (map (\<lambda>i. OrgRepos b og i 100) [p..<p + k]) (quiet s)"
    by blast
  from lister_stop [OF assms(2)] obtain s2 where
    stop: "get_repositories_while E og tok b ex dbg
             (repos @ filter (included E ex) (map name (concat (map pg [p..<p + k])))) (p + k) tot1 s1 =
           Some (Inr (repos @ filter (included E ex) (map name (concat (map pg [p..<p + k]))), tot1), s2)"
    and q2: "quiet s2 = sent E (OrgRepos b og (p + k) 100) (quiet s1)"
    by blast
  show ?thesis
    apply (rule exI [of _ s2], rule exI [of _ tot1])
    apply (simp only: run stop q2 q1)
    apply simp
    done
qed

lemma set_fold_set_add [simp]: "set (fold set_add xs ys) = set ys \<union> set xs"
  by (induction xs arbitrary: ys) (auto simp: set_add_def)

lemma distinct_fold_set_add: "distinct ys \<Longrightarrow> distinct (fold set_add xs ys)"
  by (induction xs arbitrary: ys) (auto simp: set_add_def)

lemma logins_simps [simp]:
  "logins [] = []"
  "logins (c # cs) = (case author c of User l \<Rightarrow> [l] | _ \<Rightarrow> []) @ logins cs"
  by (simp_all add: logins_def)

lemma set_logins: "set (logins cs) = {l. User l \<in> author ` set cs}"
  by (induction cs) (auto split: author_json.splits simp: image_iff)

lemma quiet_add_authors [simp]: "quiet (snd (add_authors dbg repo cs contributors s)) = quiet s"
  by (induction cs arbitrary: contributors s) (simp_all split: author_json.splits)

lemma add_authors_ok:
  assumes "\<forall>c\<in>set cs. author c \<noteq> Absent"
  shows "fst (add_authors dbg repo cs contributors s) = Inr (fold set_add (logins cs) contributors)"
  using assms
  by (induction cs arbitrary: contributors s) (simp_all split: author_json.splits)

lemma add_authors_absent:
  assumes "\<exists>c\<in>set cs. author c = Absent"
  shows "fst (add_authors dbg repo cs contributors s) = Inl (KeyError ''author'')"
  using assms
proof (induction cs arbitrary: contributors s)
  case Nil
  then show ?case by simp
next
  case (Cons a cs)
  show ?case
  proof (cases "author a = Absent")
    case True
    then show ?thesis by simp
  next
    case False
    with Cons.prems have "\<exists>c\<in>set cs. author c = Absent" by auto
    from Cons.IH [OF this] show ?thesis
      by (cases "author a") simp_all
  qed
qed

lemma collector_stop:
  assumes "repo_commits E (RepoCommits b og repo since p 100) tok = Ok []"
  shows "\<exists>s2. get_recent_contributors_while E og repo tok b dbg since contributors p s =
                Some (Inr contributors, s2)
           \<and> quiet s2 = sent E (RepoCommits b og repo since p 100) (quiet s)"
  using assms
  by (subst get_recent_contributors_while.simps) (simp add: get_github_api_cases quiet_sent)

lemma collector_fail:
  assumes "repo_commits E (RepoCommits b og repo since p 100) tok = Failed m
         \<or> repo_commits E (RepoCommits b og repo since p 100) tok = BadStatus m"
  shows "\<exists>s2. get_recent_contributors_while E og repo tok b dbg since contributors p s =
                Some (Inl (RequestException m), s2)
           \<and> quiet s2 = sent E (RepoCommits b og repo since p 100) (quiet s)"
  using assms
  by (subst get_recent_contributors_while.simps) (auto simp: get_github_api_cases quiet_sent)

lemma collector_key_error:
  assumes "repo_commits E (RepoCommits b og repo since p 100) tok = Ok commits"
    and "\<exists>c\<in>set commits. author c = Absent"
  shows "\<exists>s2. get_recent_contributors_while E og repo tok b dbg since contributors p s =
                Some (Inl (KeyError ''author''), s2)
           \<and> quiet s2 = sent E (RepoCommits b og repo since p 100) (quiet s)"
proof -
  let ?s1 = "if dbg then print_line (RequestingURL (RepoCommits b og repo since p 100))
                          (sent E (RepoCommits b og repo since p 100) s)
             else sent E (RepoCommits b og repo since p 100) s"
  obtain r s2 where a: "add_authors dbg repo commits contributors ?s1 = (r, s2)"
    by (cases "add_authors dbg repo commits contributors ?s1")
  from add_authors_absent [OF assms(2), of dbg repo contributors ?s1] a
  have r: "r = Inl (KeyError ''author'')" by simp
  from quiet_add_authors [of dbg repo commits contributors ?s1] a
  have q: "quiet s2 = sent E (RepoCommits b og repo since p 100) (quiet s)"
    by (simp add: quiet_sent)
  from assms(2) have ne: "commits \<noteq> []" by auto
  show ?thesis
    apply (subst get_recent_contributors_while.simps)
    apply (simp only: get_github_api_cases assms(1) response.case prod.case sum.case ne if_False a r)
    apply (simp add: q)
    done
qed

lemma collector_more:
  assumes "repo_commits E (RepoCommits b og repo since p 100) tok = Ok commits"
    and "commits \<noteq> []" and "\<forall>c\<in>set commits. author c \<noteq> Absent"
  shows "\<exists>s2. get_recent_contributors_while E og repo tok b dbg since contributors p s =
              get_recent_contributors_while E og repo tok b dbg since
                (fold set_add (logins commits) contributors) (Suc p) s2
           \<and> quiet s2 = sent E (RepoCommits b og repo since p 100) (quiet s)"
proof -
  let ?s1 = "if dbg then print_line (RequestingURL (RepoCommits b og repo since p 100))
                          (sent E (RepoCommits b og repo since p 100) s)
             else sent E (RepoCommits b og repo since p 100) s"
  obtain r s2 where a: "add_authors dbg repo commits contributors ?s1 = (r, s2)"
    by (cases "add_authors dbg repo commits contributors ?s1")
  from add_authors_ok [OF assms(3), of dbg repo contributors ?s1] a
  have r: "r = Inr (fold set_add (logins commits) contributors)" by simp
  from quiet_add_authors [of dbg repo commits contributors ?s1] a
  have q: "quiet s2 = sent E (RepoCommits b og repo since p 100) (quiet s)"
    by (simp add: quiet_sent)
  show ?thesis
    apply (subst get_recent_contributors_while.simps)
    apply (simp only: get_github_api_cases assms(1) response.case prod.case sum.case assms(2) if_False a r)
    apply (simp only: Suc_eq_plus1 [symmetric])
    apply (rule exI, rule conjI, rule refl)
    apply (simp add: q)
    done
qed

lemma logins_append [simp]: "logins (xs @ ys) = logins xs @ logins ys"
  by (simp add: logins_def)

lemma collector_pages:
  assumes "\<forall>i<k. repo_commits E (RepoCommits b og repo since (p + i) 100) tok = Ok (pg (p + i))
                  \<and> pg (p + i) \<noteq> [] \<and> (\<forall>c\<in>set (pg (p + i)). author c \<noteq> Absent)"
  shows "\<exists>s2.
           get_recent_contributors_while E og repo tok b dbg since contributors p s =
             get_recent_contributors_while E og repo tok b dbg since
               (fold set_add (logins (concat (map pg [p..<p + k]))) contributors) (p + k) s2
           \<and> quiet s2 = fold (sent E) (map (\<lambda>i. RepoCommits b og repo since i 100) [p..<p + k]) (quiet s)"
  using assms
proof (induction k arbitrary: p contributors s)
  case 0
  then show ?case by auto
next
  case (Suc k)
  from Suc.prems have first: "repo_commits E (RepoCommits b og repo since p 100) tok = Ok (pg p)"
    "pg p \<noteq> []" "\<forall>c\<in>set (pg p). author c \<noteq> Absent"
    by (metis add.right_neutral zero_less_Suc)+
  from Suc.prems have rest:
    "\<forall>i<k. repo_commits E (RepoCommits b og repo since (Suc p + i) 100) tok = Ok (pg (Suc p + i))
            \<and> pg (Suc p + i) \<noteq> [] \<and> (\<forall>c\<in>set (pg (Suc p + i)). author c \<noteq> Absent)"
    by (metis Suc_less_eq add_Suc_shift)
  from collector_more [OF first] obtain s1 where
    step: "get_recent_contributors_while E og repo tok b dbg since contributors p s =
             get_recent_contributors_while E og repo tok b dbg since
               (fold set_add (logins (pg p)) contributors) (Suc p) s1"
    and q1: "quiet s1 = sent E (RepoCommits b og repo since p 100) (quiet s)"
    by blast
  from Suc.IH [OF rest] obtain s2 where
    run: "get_recent_contributors_while E og repo tok b dbg since
            (fold set_add (logins (pg p)) contributors) (Suc p) s1 =
          get_recent_contributors_while E og repo tok b dbg since
            (fold set_add (logins (concat (map pg [Suc p..<Suc p + k])))
               (fold set_add (logins (pg p)) contributors))
            (Suc p + k) s2"
    and q2: "quiet s2 = fold (sent E) (map (\<lambda>i. RepoCommits b og repo since i 100) [Suc p..<Suc p + k]) (quiet s1)"
    by blast
  have upt: "[p..<p + Suc k] = p # [Suc p..<Suc p + k]"
    by (simp add: upt_rec)
  show ?case
    apply (rule exI [of _ s2])
    apply (simp only: step run upt q2 q1)
    apply simp
    done
qed

lemma collector_terminal:
  assumes "\<not> more_commits E (RepoCommits b og repo since p 100) tok"
  shows "\<exists>s2. get_recent_contributors_while E og repo tok b dbg since contributors p s =
                Some (collector_end (repo_commits E (RepoCommits b og repo since p 100) tok) contributors, s2)
           \<and> quiet s2 = sent E (RepoCommits b og repo since p 100) (quiet s)"
proof (cases "repo_commits E (RepoCommits b og repo since p 100) tok")
  case (Failed m)
  with collector_fail [of E b og repo since p tok m] show ?thesis
    by (simp add: collector_end_def)
next
  case (BadStatus m)
  with collector_fail [of E b og repo since p tok m] show ?thesis
    by (simp add: collector_end_def)
next
  case (Ok commits)
  show ?thesis
  proof (cases "commits = []")
    case True
    with Ok collector_stop [of E b og repo since p tok] show ?thesis
      by (simp add: collector_end_def)
  next
    case False
    with Ok assms have "\<exists>c\<in>set commits. author c = Absent"
      by (auto simp: more_commits_def list_all_iff)
    from collector_key_error [OF Ok this] False Ok show ?thesis
      by (simp add: collector_end_def)
  qed
qed

lemma more_commits_page:
  assumes "more_commits E u tok"
  shows "repo_commits E u tok = Ok (page_of (repo_commits E u tok))
         \<and> page_of (repo_commits E u tok) \<noteq> []
         \<and> (\<forall>c\<in>set (page_of (repo_commits E u tok)). author c \<noteq> Absent)"
  using assms by (auto simp: more_commits_def page_of_def list_all_iff split: response.splits)

lemma more_repos_page:
  assumes "more_repos E u tok"
  shows "org_repos E u tok = Ok (page_of (org_repos E u tok)) \<and> page_of (org_repos E u tok) \<noteq> []"
  using assms by (auto simp: more_repos_def page_of_def split: response.splits)

lemma not_more_repos: "\<not> more_repos E u tok \<Longrightarrow> \<forall>r. org_repos E u tok = Ok r \<longrightarrow> r = []"
  by (auto simp: more_repos_def)

lemma run_length_0:
  fixes M :: "nat \<Rightarrow> bool"
  assumes "\<not> M p"
  shows "\<exists>k. (\<forall>i<k. M (p + i)) \<and> \<not> M (p + k)"
proof -
  have "(\<forall>i<0. M (p + i)) \<and> \<not> M (p + 0)"
    using assms by simp
  then show ?thesis by (rule exI)
qed

lemma run_length_Suc:
  fixes M :: "nat \<Rightarrow> bool"
  assumes "M p" and "\<exists>k. (\<forall>i<k. M (p + 1 + i)) \<and> \<not> M (p + 1 + k)"
  shows "\<exists>k. (\<forall>i<k. M (p + i)) \<and> \<not> M (p + k)"
proof -
  from assms(2) obtain k where k: "\<forall>i<k. M (p + 1 + i)" "\<not> M (p + 1 + k)"
    by blast
  have "M (p + i)" if "i < Suc k" for i
  proof (cases i)
    case 0
    with assms(1) show ?thesis by simp
  next
    case (Suc j)
    with that have "j < k" by simp
    with k(1) have "M (p + 1 + j)" by blast
    with Suc show ?thesis by simp
  qed
  moreover from k(2) have "\<not> M (p + Suc k)" by simp
  ultimately have "(\<forall>i<Suc k. M (p + i)) \<and> \<not> M (p + Suc k)" by blast
  then show ?thesis by (rule exI)
qed

lemma lister_inv:
  assumes "get_repositories_while E og tok b ex dbg repos p tot s = Some y"
  shows "\<exists>k. (\<forall>i<k. more_repos E (OrgRepos b og (p + i) 100) tok)
             \<and> \<not> more_repos E (OrgRepos b og (p + k) 100) tok"
proof (induct rule: get_repositories_while.raw_induct [OF _ assms])
  case (1 f E og tok b ex dbg repos p tot s y)
  show ?case
  proof (cases "more_repos E (OrgRepos b og p 100) tok")
    case False
    then show ?thesis
      by (rule run_length_0 [where M = "\<lambda>i. more_repos E (OrgRepos b og i 100) tok"])
  next
    case True
    from more_repos_page [OF True] obtain r where
      r: "org_repos E (OrgRepos b og p 100) tok = Ok r" "r \<noteq> []" by blast
    let ?s1 = "if dbg then print_line (RequestingURL (OrgRepos b og p 100))
                            (sent E (OrgRepos b og p 100) s)
               else sent E (OrgRepos b og p 100) s"
    let ?s2 = "if dbg
               then print_repo_names r
                      (print_line (Text (''Fetched '' @ str (length r)
                         @ '' repositories on page '' @ str p @ ''.'')) ?s1)
               else ?s1"
    from "1.hyps"(2) have "f E og tok b ex dbg (append_repos E ex r repos) (p + 1) (tot + length r) ?s2 = Some y"
      by (simp only: get_github_api_cases r response.case prod.case sum.case Let_def if_False)
    from True "1.hyps"(1) [OF this] show ?thesis
      by (rule run_length_Suc [where M = "\<lambda>i. more_repos E (OrgRepos b og i 100) tok"])
  qed
qed

lemma collector_inv:
  assumes "get_recent_contributors_while E og repo tok b dbg since contributors p s = Some y"
  shows "\<exists>k. (\<forall>i<k. more_commits E (RepoCommits b og repo since (p + i) 100) tok)
             \<and> \<not> more_commits E (RepoCommits b og repo since (p + k) 100) tok"
proof (induct rule: get_recent_contributors_while.raw_induct [OF _ assms])
  case (1 f E og repo tok b dbg since contributors p s y)
  show ?case
  proof (cases "more_commits E (RepoCommits b og repo since p 100) tok")
    case False
    then show ?thesis
      by (rule run_length_0 [where M = "\<lambda>i. more_commits E (RepoCommits b og repo since i 100) tok"])
  next
    case True
    from more_commits_page [OF True] obtain commits where
      c: "repo_commits E (RepoCommits b og repo since p 100) tok = Ok commits" "commits \<noteq> []"
         "\<forall>c\<in>set commits. author c \<noteq> Absent" by blast
    let ?s1 = "if dbg then print_line (RequestingURL (RepoCommits b og repo since p 100))
                            (sent E (RepoCommits b og repo since p 100) s)
               else sent E (RepoCommits b og repo since p 100) s"
    obtain r s2 where a: "add_authors dbg repo commits contributors ?s1 = (r, s2)"
      by (cases "add_authors dbg repo commits contributors ?s1")
    from add_authors_ok [OF c(3), of dbg repo contributors ?s1] a
    have r: "r = Inr (fold set_add (logins commits) contributors)" by simp
    from "1.hyps"(2) have "\<exists>s'. f E og repo tok b dbg since (fold set_add (logins commits) contributors) (p + 1) s' = Some y"
      by (simp only: get_github_api_cases c(1) c(2) response.case prod.case sum.case if_False a r)
         (rule exI)
    then obtain s' where
      "f E og repo tok b dbg since (fold set_add (logins commits) contributors) (p + 1) s' = Some y" ..
    from True "1.hyps"(1) [OF this] show ?thesis
      by (rule run_length_Suc [where M = "\<lambda>i. more_commits E (RepoCommits b og repo since i 100) tok"])
  qed
qed

lemma upt_all_conv:
  fixes M :: "nat \<Rightarrow> bool"
  shows "list_all M [p..<p + k] \<longleftrightarrow> (\<forall>i<k. M (p + i))"
proof -
  have "(\<forall>j\<in>{p..<p + k}. M j) \<longleftrightarrow> (\<forall>i<k. M (p + i))"
  proof
    assume a: "\<forall>j\<in>{p..<p + k}. M j"
    show "\<forall>i<k. M (p + i)"
    proof (intro allI impI)
      fix i assume "i < k"
      then have "p + i \<in> {p..<p + k}" by simp
      with a show "M (p + i)" by blast
    qed
  next
    assume a: "\<forall>i<k. M (p + i)"
    show "\<forall>j\<in>{p..<p + k}. M j"
    proof
      fix j assume "j \<in> {p..<p + k}"
      then have "j - p < k" "p + (j - p) = j" by auto
      with a show "M j" by metis
    qed
  qed
  then show ?thesis by (simp add: list_all_iff)
qed

lemma lister_while_run:
  assumes "repos_run E b og tok p k"
  shows "\<exists>s2 tot2.
           get_repositories_while E og tok b ex dbg repos p tot s =
             Some (Inr (repos @ filter (included E ex) (map name (repos_pages E b og tok p k)), tot2), s2)
           \<and> quiet s2 = fold (sent E) (repos_urls b og p (Suc k)) (quiet s)"
proof -
  let ?pg = "\<lambda>i. page_of (org_repos E (OrgRepos b og i 100) tok)"
  from assms have more: "\<forall>i<k. more_repos E (OrgRepos b og (p + i) 100) tok"
    and stop: "\<not> more_repos E (OrgRepos b og (p + k) 100) tok"
    by (simp_all add: repos_run_def upt_all_conv)
  from more have pages:
    "\<forall>i<k. org_repos E (OrgRepos b og (p + i) 100) tok = Ok (?pg (p + i)) \<and> ?pg (p + i) \<noteq> []"
    using more_repos_page by blast
  from lister_run [of k E b og p tok ?pg, OF pages not_more_repos [OF stop]]
  show ?thesis
    by (simp add: repos_pages_def repos_urls_def)
qed

lemma lister_while_inv:
  assumes "get_repositories_while E og tok b ex dbg repos p tot s = Some y"
  shows "\<exists>k. repos_run E b og tok p k"
  using lister_inv [OF assms] by (simp add: repos_run_def upt_all_conv)

lemma collector_while_run:
  assumes "commits_run E b og repo since tok p k"
  shows "\<exists>s2.
           get_recent_contributors_while E og repo tok b dbg since contributors p s =
             Some (collector_end (repo_commits E (RepoCommits b og repo since (p + k) 100) tok)
                     (fold set_add (logins (commits_pages E b og repo since tok p k)) contributors), s2)
           \<and> quiet s2 = fold (sent E) (commits_urls b og repo since p (Suc k)) (quiet s)"
proof -
  let ?pg = "\<lambda>i. page_of (repo_commits E (RepoCommits b og repo since i 100) tok)"
  let ?cs = "fold set_add (logins (concat (map ?pg [p..<p + k]))) contributors"
  from assms have more: "\<forall>i<k. more_commits E (RepoCommits b og repo since (p + i) 100) tok"
    and stop: "\<not> more_commits E (RepoCommits b og repo since (p + k) 100) tok"
    by (simp_all add: commits_run_def upt_all_conv)
  from more have pages:
    "\<forall>i<k. repo_commits E (RepoCommits b og repo since (p + i) 100) tok = Ok (?pg (p + i))
            \<and> ?pg (p + i) \<noteq> [] \<and> (\<forall>c\<in>set (?pg (p + i)). author c \<noteq> Absent)"
    using more_commits_page by blast
  from collector_pages [of k E b og repo since p tok ?pg dbg contributors s, OF pages]
  obtain s1 where
    run: "get_recent_contributors_while E og repo tok b dbg since contributors p s =
            get_recent_contributors_while E og repo tok b dbg since ?cs (p + k) s1"
    and q1: "quiet s1 = fold (sent E) (map (\<lambda>i. RepoCommits b og repo since i 100) [p..<p + k]) (quiet s)"
    by blast
  from collector_terminal [OF stop, of dbg ?cs s1] obtain s2 where
    fin: "get_recent_contributors_while E og repo tok b dbg since ?cs (p + k) s1 =
            Some (collector_end (repo_commits E (RepoCommits b og repo since (p + k) 100) tok) ?cs, s2)"
    and q2: "quiet s2 = sent E (RepoCommits b og repo since (p + k) 100) (quiet s1)"
    by blast
  show ?thesis
    apply (rule exI [of _ s2])
    apply (simp only: run fin q2 q1 commits_pages_def commits_urls_def)
    apply simp
    done
qed

lemma collector_while_inv:
  assumes "get_recent_contributors_while E og repo tok b dbg since contributors p s = Some y"
  shows "\<exists>k. commits_run E b og repo since tok p k"
  using collector_inv [OF assms] by (simp add: commits_run_def upt_all_conv)

lemma get_repositories_run:
  assumes "repos_run E b og tok 1 k"
  shows "\<exists>s2. get_repositories E og tok b ex dbg s =
                Some (Inr (filter (included E ex) (map name (repos_pages E b og tok 1 k))), s2)
           \<and> quiet s2 = fold (sent E) (repos_urls b og 1 (Suc k)) (quiet s)"
proof -
  from lister_while_run [OF assms, of ex dbg "[]" 0 s] obtain s1 tot1 where
    run: "get_repositories_while E og tok b ex dbg [] 1 0 s =
            Some (Inr (filter (included E ex) (map name (repos_pages E b og tok 1 k)), tot1), s1)"
    and q: "quiet s1 = fold (sent E) (repos_urls b og 1 (Suc k)) (quiet s)"
    by auto
  show ?thesis
    unfolding get_repositories_def run
    by (cases dbg) (simp_all add: q)
qed

lemma get_repositories_inv:
  assumes "get_repositories E og tok b ex dbg s = Some y"
  shows "\<exists>k. repos_run E b og tok 1 k"
proof (cases "get_repositories_while E og tok b ex dbg [] 1 0 s")
  case None
  with assms show ?thesis by (simp add: get_repositories_def)
next
  case (Some z)
  then show ?thesis by (rule lister_while_inv)
qed

text \<open>
  C2. For every repository name and every exclude substring, the repository lister
  includes the name in its result if and only if the substring is empty or does not
  occur case-insensitively within the name, and the included names keep the order in
  which the API returned them: on a listing of \<open>k\<close> pages the lister returns the names of
  the repositories of these pages, in their order, filtered by that condition. Where
  Python lowers the two texts as ASCII text is lowered, the substring occurs
  case-insensitively exactly when some stretch of the name agrees with it letter by
  letter, whatever the case of the letters.
\<close>

theorem lister_includes_iff:
  "(repos_run E b og tok 1 k \<longrightarrow>
      (\<exists>s'. get_repositories E og tok b ex dbg s =
         Some (Inr (filter (\<lambda>n. ex = [] \<or> \<not> occurs_ci E ex n)
                      (map name (repos_pages E b og tok 1 k))), s')))
   \<and> (str_lower E ex = ascii_lower ex \<and> str_lower E n = ascii_lower n \<longrightarrow>
        (occurs_ci E ex n \<longleftrightarrow> occurs_ignoring_case ex n))"
proof (intro conjI impI)
  assume run: "repos_run E b og tok 1 k"
  have "included E ex = (\<lambda>n. ex = [] \<or> \<not> occurs_ci E ex n)"
    by (rule ext) (simp add: included_def)
  with get_repositories_run [OF run, of ex dbg s]
  show "\<exists>s'. get_repositories E og tok b ex dbg s =
         Some (Inr (filter (\<lambda>n. ex = [] \<or> \<not> occurs_ci E ex n)
                      (map name (repos_pages E b og tok 1 k))), s')"
    by auto
next
  assume "str_lower E ex = ascii_lower ex \<and> str_lower E n = ascii_lower n"
  then show "occurs_ci E ex n \<longleftrightarrow> occurs_ignoring_case ex n"
    by (simp add: occurs_ci_sublist ascii_occurs)
qed

theorem lister_includes_iff_witness:
  "repos_run mixed_case ''https://api.github.com'' ''acme'' ''t'' 1 1
   \<and> (\<exists>s'. get_repositories mixed_case ''acme'' ''t'' ''https://api.github.com'' ''LeGaCy'' False world0 =
          Some (Inr [''API'', ''web-frontend''], s'))
   \<and> occurs_ignoring_case ''LeGaCy'' ''Api-LEGACY-v2''
   \<and> \<not> occurs_ignoring_case ''LeGaCy'' ''web-frontend''
   \<and> repos_run cafe ''https://api.github.com'' ''acme'' ''t'' 1 1
   \<and> (\<exists>s'. get_repositories cafe ''acme'' ''t'' ''https://api.github.com'' [CHR 0xC3, CHR 0xA9] False world0 =
          Some (Inr [''bar''], s'))"
proof -
  note T = lister_includes_iff [where E = mixed_case and b = "''https://api.github.com''"
             and og = "''acme''" and tok = "''t''" and k = 1 and ex = "''LeGaCy''"
             and dbg = False and s = world0]
  have run: "repos_run mixed_case ''https://api.github.com'' ''acme'' ''t'' 1 1"
    by (simp add: repos_run_def more_repos_def mixed_case_def)
  have pages: "map name (repos_pages mixed_case ''https://api.github.com'' ''acme'' ''t'' 1 1)
               = [''API'', ''Api-LEGACY-v2'', ''web-frontend'', ''legacy'']"
    by (simp add: repos_pages_def page_of_def mixed_case_def)
  have keep: "filter (\<lambda>n. ''LeGaCy'' = [] \<or> \<not> occurs_ci mixed_case ''LeGaCy'' n)
                [''API'', ''Api-LEGACY-v2'', ''web-frontend'', ''legacy'']
              = [''API'', ''web-frontend'']"
    by (simp add: occurs_ci_sublist mixed_case_def ascii_lower_def ascii_lower_char_def sublist_code)
  from T [where n = "''x''", THEN conjunct1, THEN mp, OF run]
  have A: "\<exists>s'. get_repositories mixed_case ''acme'' ''t'' ''https://api.github.com'' ''LeGaCy'' False world0 =
          Some (Inr [''API'', ''web-frontend''], s')"
    by (simp only: pages keep)
  have low: "\<And>x. str_lower mixed_case x = ascii_lower x"
    by (simp add: mixed_case_def)
  have "occurs_ci mixed_case ''LeGaCy'' ''Api-LEGACY-v2''"
    by (simp add: occurs_ci_sublist mixed_case_def ascii_lower_def ascii_lower_char_def sublist_code)
  with T [where n = "''Api-LEGACY-v2''", THEN conjunct2, THEN mp, OF conjI [OF low low]]
  have B: "occurs_ignoring_case ''LeGaCy'' ''Api-LEGACY-v2''"
    by simp
  have "\<not> occurs_ci mixed_case ''LeGaCy'' ''web-frontend''"
    by (simp add: occurs_ci_sublist mixed_case_def ascii_lower_def ascii_lower_char_def sublist_code)
  with T [where n = "''web-frontend''", THEN conjunct2, THEN mp, OF conjI [OF low low]]
  have C: "\<not> occurs_ignoring_case ''LeGaCy'' ''web-frontend''"
    by simp
  have run': "repos_run cafe ''https://api.github.com'' ''acme'' ''t'' 1 1"
    by (simp add: repos_run_def more_repos_def cafe_def)
  have pages': "map name (repos_pages cafe ''https://api.github.com'' ''acme'' ''t'' 1 1)
               = [''CAF'' @ [CHR 0xC3, CHR 0x89], ''bar'']"
    by (simp add: repos_pages_def page_of_def cafe_def)
  have keep': "filter (\<lambda>n. [CHR 0xC3, CHR 0xA9] = [] \<or> \<not> occurs_ci cafe [CHR 0xC3, CHR 0xA9] n)
                [''CAF'' @ [CHR 0xC3, CHR 0x89], ''bar'']
              = [''bar'']"
    by (simp add: occurs_ci_sublist cafe_def ascii_lower_char_def sublist_code)
  from lister_includes_iff [where E = cafe and b = "''https://api.github.com''"
         and og = "''acme''" and tok = "''t''" and k = 1 and ex = "[CHR 0xC3, CHR 0xA9]"
         and dbg = False and s = world0 and n = "''x''", THEN conjunct1, THEN mp, OF run']
  have D: "\<exists>s'. get_repositories cafe ''acme'' ''t'' ''https://api.github.com'' [CHR 0xC3, CHR 0xA9] False world0 =
          Some (Inr [''bar''], s')"
    by (simp only: pages' keep')
  from run A B C run' D show ?thesis by (intro conjI)
qed

lemma quiet_collected_update [simp]:
  "quiet (s\<lparr>collected := c\<rparr>) = (quiet s)\<lparr>collected := c\<rparr>"
  by (simp add: quiet_def)

lemma quiet_record_set: "quiet (record_set repo r s) = record_set repo r (quiet s)"
  by (cases r) (simp_all add: record_set_def)

lemma record_set_fields [simp]:
  "clock (record_set repo r s) = clock s"
  "requests (record_set repo r s) = requests s"
  "files (record_set repo r s) = files s"
  "stdout (record_set repo r s) = stdout s"
  "collected (record_set repo r s) =
     (case r of Inl e \<Rightarrow> collected s | Inr cs \<Rightarrow> collected s @ [(repo, cs)])"
  by (cases r; simp add: record_set_def)+

lemma get_recent_contributors_run:
  assumes "commits_run E b og repo (clock s - timedelta_days_90) tok 1 k"
  shows "\<exists>s2. get_recent_contributors E og repo tok b dbg s =
                Some (collector_outcome E b og repo (clock s - timedelta_days_90) tok k, s2)
           \<and> quiet s2 =
               record_set repo (collector_outcome E b og repo (clock s - timedelta_days_90) tok k)
                 (fold (sent E) (commits_urls b og repo (clock s - timedelta_days_90) 1 (Suc k)) (quiet s))"
proof -
  let ?since = "clock s - timedelta_days_90"
  let ?R = "collector_outcome E b og repo ?since tok k"
  from collector_while_run [OF assms, of dbg "[]" s] obtain s1 where
    run: "get_recent_contributors_while E og repo tok b dbg ?since [] 1 s = Some (?R, s1)"
    and q: "quiet s1 = fold (sent E) (commits_urls b og repo ?since 1 (Suc k)) (quiet s)"
    by (auto simp: collector_outcome_def contributors_of_def)
  from q have c: "collected s1 = collected s"
    by (metis quiet_fields(4) fold_sent_fields(4))
  show ?thesis
  proof (cases ?R)
    case (Inl e)
    with run q show ?thesis
      by (simp add: get_recent_contributors_def Let_def record_set_def)
  next
    case (Inr cs)
    with run q c show ?thesis
      by (simp add: get_recent_contributors_def Let_def record_set_def)
  qed
qed

lemma get_recent_contributors_inv:
  assumes "get_recent_contributors E og repo tok b dbg s = Some y"
  shows "\<exists>k. commits_run E b og repo (clock s - timedelta_days_90) tok 1 k"
proof (cases "get_recent_contributors_while E og repo tok b dbg (clock s - timedelta_days_90) [] 1 s")
  case None
  with assms show ?thesis by (simp add: get_recent_contributors_def Let_def)
next
  case (Some z)
  then show ?thesis by (rule collector_while_inv)
qed

text \<open>
  C4, as the code has it. On a listing of \<open>k\<close> pages in which every commit object has an
  \<open>author\<close> entry, ended by an empty page, the collector raises nothing and returns
  exactly the logins of the commits whose author is a user: a commit whose author is
  \<open>null\<close> (or the empty object) adds nothing. A commit object without the \<open>author\<close> key
  is not skipped: the subscript raises \<open>KeyError\<close>.
\<close>

theorem collector_skips_null_authors:
  assumes "commits_run E b og repo (clock s - timedelta_days_90) tok 1 k"
    and "repo_commits E (RepoCommits b og repo (clock s - timedelta_days_90) (1 + k) 100) tok = Ok []"
  shows "\<exists>cs s'. get_recent_contributors E og repo tok b dbg s = Some (Inr cs, s')
           \<and> distinct cs
           \<and> set cs = {l. User l \<in> author ` set (commits_pages E b og repo (clock s - timedelta_days_90) tok 1 k)}"
proof -
  let ?since = "clock s - timedelta_days_90"
  let ?cs = "contributors_of E b og repo ?since tok k"
  from assms(2) have out: "collector_outcome E b og repo ?since tok k = Inr ?cs"
    by (simp add: collector_outcome_def collector_end_def)
  from get_recent_contributors_run [OF assms(1), of dbg] out obtain s2 where
    "get_recent_contributors E og repo tok b dbg s = Some (Inr ?cs, s2)"
    by auto
  moreover have "distinct ?cs"
    by (simp add: contributors_of_def distinct_fold_set_add)
  moreover have "set ?cs = {l. User l \<in> author ` set (commits_pages E b og repo ?since tok 1 k)}"
    by (simp add: contributors_of_def set_logins)
  ultimately show ?thesis by blast
qed

theorem collector_skips_null_authors_witness:
  "\<exists>cs s'. get_recent_contributors three_commits ''acme'' ''api'' ''t'' ''https://api.github.com'' False world0
             = Some (Inr cs, s')
           \<and> distinct cs \<and> set cs = {''alice''}"
proof -
  let ?since = "clock world0 - timedelta_days_90"
  have run: "commits_run three_commits ''https://api.github.com'' ''acme'' ''api'' ?since ''t'' 1 1"
    by (simp add: commits_run_def more_commits_def three_commits_def)
  have stop: "repo_commits three_commits
                (RepoCommits ''https://api.github.com'' ''acme'' ''api'' ?since (1 + 1) 100) ''t'' = Ok []"
    by (simp add: three_commits_def)
  have pages: "{l. User l \<in> author ` set (commits_pages three_commits ''https://api.github.com''
                 ''acme'' ''api'' ?since ''t'' 1 1)} = {''alice''}"
    by (auto simp: commits_pages_def page_of_def three_commits_def)
  from collector_skips_null_authors [OF run stop, of False] show ?thesis
    by (simp only: pages)
qed

theorem collector_missing_author_counterexample:
  "map_option fst
     (get_recent_contributors no_author_key ''acme'' ''api'' ''t'' ''https://api.github.com'' False world0)
   = Some (Inl (KeyError ''author''))"
  by (simp add: get_recent_contributors_def get_recent_contributors_while.simps get_github_api_def
        no_author_key_def world0_def set_add_def)

lemma requests_of_quiet: "quiet s2 = t \<Longrightarrow> requests s2 = requests t"
  by (metis quiet_fields(2))

text \<open>
  C5. In both pagination loops the requests go on, page 1, 2, 3 and so on with
  \<open>per_page=100\<close>, until a request returns an empty page: on a listing of \<open>k\<close> non-empty
  pages followed by an empty one, exactly the pages \<open>1\<close> to \<open>k + 1\<close> are requested, in this
  order, whatever the sizes of the pages; so a last non-empty page of exactly 100 items
  is still followed by one more request.
\<close>

theorem pagination_until_empty_page:
  "(repos_run E b og tok 1 k \<and> org_repos E (OrgRepos b og (1 + k) 100) tok = Ok []
      \<longrightarrow> (\<exists>r s'. get_repositories E og tok b ex dbg s = Some (r, s')
             \<and> requests s' = requests s @ map (\<lambda>page. OrgRepos b og page 100) [1..<k + 2]))
   \<and> (commits_run E b og repo (clock s - timedelta_days_90) tok 1 j
        \<and> repo_commits E (RepoCommits b og repo (clock s - timedelta_days_90) (1 + j) 100) tok = Ok []
      \<longrightarrow> (\<exists>r s'. get_recent_contributors E og repo tok b dbg s = Some (r, s')
             \<and> requests s' = requests s
                 @ map (\<lambda>page. RepoCommits b og repo (clock s - timedelta_days_90) page 100) [1..<j + 2]))"
proof (intro conjI impI)
  assume "repos_run E b og tok 1 k \<and> org_repos E (OrgRepos b og (1 + k) 100) tok = Ok []"
  then have run: "repos_run E b og tok 1 k" ..
  from get_repositories_run [OF run, of ex dbg s] obtain s2 where
    res: "get_repositories E og tok b ex dbg s =
            Some (Inr (filter (included E ex) (map name (repos_pages E b og tok 1 k))), s2)"
    and q: "quiet s2 = fold (sent E) (repos_urls b og 1 (Suc k)) (quiet s)"
    by blast
  from requests_of_quiet [OF q] have "requests s2 = requests s @ map (\<lambda>page. OrgRepos b og page 100) [1..<k + 2]"
    by (simp add: repos_urls_def)
  with res show "\<exists>r s'. get_repositories E og tok b ex dbg s = Some (r, s')
             \<and> requests s' = requests s @ map (\<lambda>page. OrgRepos b og page 100) [1..<k + 2]"
    by blast
next
  let ?since = "clock s - timedelta_days_90"
  assume "commits_run E b og repo ?since tok 1 j
        \<and> repo_commits E (RepoCommits b og repo ?since (1 + j) 100) tok = Ok []"
  then have run: "commits_run E b og repo ?since tok 1 j" ..
  from get_recent_contributors_run [OF run, of dbg] obtain s2 where
    res: "get_recent_contributors E og repo tok b dbg s =
            Some (collector_outcome E b og repo ?since tok j, s2)"
    and q: "quiet s2 = record_set repo (collector_outcome E b og repo ?since tok j)
                         (fold (sent E) (commits_urls b og repo ?since 1 (Suc j)) (quiet s))"
    by blast
  from requests_of_quiet [OF q]
  have "requests s2 = requests s @ map (\<lambda>page. RepoCommits b og repo ?since page 100) [1..<j + 2]"
    by (simp add: commits_urls_def)
  with res show "\<exists>r s'. get_recent_contributors E og repo tok b dbg s = Some (r, s')
             \<and> requests s' = requests s @ map (\<lambda>page. RepoCommits b og repo ?since page 100) [1..<j + 2]"
    by blast
qed


theorem pagination_until_empty_page_witness:
  "length (page_of (org_repos full_page (OrgRepos ''https://api.github.com'' ''acme'' 1 100) ''t'')) = 100
   \<and> length (page_of (repo_commits full_page
         (RepoCommits ''https://api.github.com'' ''acme'' ''r'' (- 7776000000000) 1 100) ''t'')) = 100
   \<and> (\<exists>r s'. get_repositories full_page ''acme'' ''t'' ''https://api.github.com'' [] False world0 = Some (r, s')
          \<and> requests s' = [OrgRepos ''https://api.github.com'' ''acme'' 1 100,
                            OrgRepos ''https://api.github.com'' ''acme'' 2 100])
   \<and> (\<exists>r s'. get_recent_contributors full_page ''acme'' ''r'' ''t'' ''https://api.github.com'' False world0
             = Some (r, s')
          \<and> requests s' = [RepoCommits ''https://api.github.com'' ''acme'' ''r'' (- 7776000000000) 1 100,
                            RepoCommits ''https://api.github.com'' ''acme'' ''r'' (- 7776000000000) 2 100])"
proof -
  have since: "clock world0 - timedelta_days_90 = - 7776000000000"
    by (simp add: world0_def timedelta_days_90_def)
  have r0: "requests world0 = []"
    by (simp add: world0_def)
  have run1: "repos_run full_page ''https://api.github.com'' ''acme'' ''t'' 1 1"
    by (simp add: repos_run_def more_repos_def full_page_def)
  have stop1: "org_repos full_page (OrgRepos ''https://api.github.com'' ''acme'' (1 + 1) 100) ''t'' = Ok []"
    by (simp add: full_page_def)
  have run2: "commits_run full_page ''https://api.github.com'' ''acme'' ''r''
                (clock world0 - timedelta_days_90) ''t'' 1 1"
    by (simp add: commits_run_def more_commits_def full_page_def list_all_iff)
  have stop2: "repo_commits full_page (RepoCommits ''https://api.github.com'' ''acme'' ''r''
                 (clock world0 - timedelta_days_90) (1 + 1) 100) ''t'' = Ok []"
    by (simp add: full_page_def)
  have upt: "[1..<1 + 2] = [1, 2::nat]"
    by (simp add: upt_rec)
  have sizes: "length (page_of (org_repos full_page (OrgRepos ''https://api.github.com'' ''acme'' 1 100) ''t'')) = 100"
    "length (page_of (repo_commits full_page
         (RepoCommits ''https://api.github.com'' ''acme'' ''r'' (- 7776000000000) 1 100) ''t'')) = 100"
    by (simp_all add: full_page_def page_of_def)
  note T = pagination_until_empty_page [of full_page "''https://api.github.com''" "''acme''" "''t''" 1
         "[]" False world0 "''r''" 1]
  have A: "\<exists>r s'. get_repositories full_page ''acme'' ''t'' ''https://api.github.com'' [] False world0 = Some (r, s')
          \<and> requests s' = [OrgRepos ''https://api.github.com'' ''acme'' 1 100,
                            OrgRepos ''https://api.github.com'' ''acme'' 2 100]"
    using T [THEN conjunct1, THEN mp, OF conjI [OF run1 stop1]]
    by (simp only: r0 upt list.map append_Nil)
  have B: "\<exists>r s'. get_recent_contributors full_page ''acme'' ''r'' ''t'' ''https://api.github.com'' False world0
             = Some (r, s')
          \<and> requests s' = [RepoCommits ''https://api.github.com'' ''acme'' ''r'' (- 7776000000000) 1 100,
                            RepoCommits ''https://api.github.com'' ''acme'' ''r'' (- 7776000000000) 2 100]"
    using T [THEN conjunct2, THEN mp, OF conjI [OF run2 stop2]]
    by (simp only: since r0 upt list.map append_Nil)
  from sizes A B show ?thesis
    by (intro conjI)
qed

lemma count_contributors_fst: "fst (count_contributors dbg xs d s) = bump xs d"
  by (induction xs arbitrary: d s) (simp_all add: bump_def)

lemma count_contributors_quiet [simp]: "quiet (snd (count_contributors dbg xs d s)) = quiet s"
  by (induction xs arbitrary: d s) simp_all

lemma collector_effect:
  assumes "get_recent_contributors E og repo tok b dbg s = Some (r, s1)"
  shows "\<exists>k. commits_run E b og repo (clock s - timedelta_days_90) tok 1 k
           \<and> r = collector_outcome E b og repo (clock s - timedelta_days_90) tok k
           \<and> quiet s1 = record_set repo r
               (fold (sent E) (commits_urls b og repo (clock s - timedelta_days_90) 1 (Suc k)) (quiet s))"
proof -
  from get_recent_contributors_inv [OF assms] obtain k where
    k: "commits_run E b og repo (clock s - timedelta_days_90) tok 1 k" ..
  from get_recent_contributors_run [OF k, of dbg] assms
  have "r = collector_outcome E b og repo (clock s - timedelta_days_90) tok k
        \<and> quiet s1 = record_set repo r
            (fold (sent E) (commits_urls b og repo (clock s - timedelta_days_90) 1 (Suc k)) (quiet s))"
    by auto
  with k show ?thesis by blast
qed

lemma distinct_contributors_of: "distinct (contributors_of E b og repo since tok k)"
  by (simp add: contributors_of_def distinct_fold_set_add)

lemma collector_returns_distinct:
  assumes "get_recent_contributors E og repo tok b dbg s = Some (Inr cs, s1)"
  shows "distinct cs \<and> files s1 = files s \<and> collected s1 = collected s @ [(repo, cs)]"
proof -
  from collector_effect [OF assms] obtain k where
    r: "Inr cs = collector_outcome E b og repo (clock s - timedelta_days_90) tok k"
    and q: "quiet s1 = record_set repo (Inr cs)
               (fold (sent E) (commits_urls b og repo (clock s - timedelta_days_90) 1 (Suc k)) (quiet s))"
    by blast
  from r have "cs = contributors_of E b og repo (clock s - timedelta_days_90) tok k"
    by (auto simp: collector_outcome_def collector_end_def split: response.splits if_splits)
  then have "distinct cs" by (simp add: distinct_contributors_of)
  moreover from q have "files s1 = files s"
    by (metis quiet_fields(3) record_set_fields(3) fold_sent_fields(3))
  moreover from q have "collected (quiet s1) = collected s @ [(repo, cs)]"
    by simp
  then have "collected s1 = collected s @ [(repo, cs)]" by simp
  ultimately show ?thesis by blast
qed

lemma collector_raises_frame:
  assumes "get_recent_contributors E og repo tok b dbg s = Some (Inl e, s1)"
  shows "files s1 = files s \<and> collected s1 = collected s"
proof -
  from collector_effect [OF assms] obtain k where
    q: "quiet s1 = record_set repo (Inl e)
               (fold (sent E) (commits_urls b og repo (clock s - timedelta_days_90) 1 (Suc k)) (quiet s))"
    by blast
  from q have "files (quiet s1) = files s" "collected (quiet s1) = collected s"
    by simp_all
  then show ?thesis by simp
qed

lemma main_for_Cons_ok:
  assumes "get_recent_contributors E (org a) repo (token a) (github_url a) (debug a) s = Some (Inr cs, s1)"
  shows "main_for E a (repo # repos) d s =
           main_for E a repos (bump (set_order E cs) d)
             (snd (count_contributors (debug a) (set_order E cs) d s1))"
  using assms count_contributors_fst [of "debug a" "set_order E cs" d s1]
  by (cases "count_contributors (debug a) (set_order E cs) d s1") simp

lemma main_for_Cons_raise:
  assumes "get_recent_contributors E (org a) repo (token a) (github_url a) (debug a) s = Some (Inl e, s1)"
  shows "main_for E a (repo # repos) d s = Some (Inl e, s1)"
  using assms by simp

lemma main_for_Cons_None:
  assumes "get_recent_contributors E (org a) repo (token a) (github_url a) (debug a) s = None"
  shows "main_for E a (repo # repos) d s = None"
  using assms by simp

lemma main_for_effect:
  assumes "main_for E a repos d s = Some (r, s')"
  shows "files s' = files s
         \<and> (\<exists>new. collected s' = collected s @ new
                \<and> list_all (\<lambda>(repo, cs). distinct cs) new
                \<and> (\<forall>d'. r = Inr d' \<longrightarrow>
                      map fst new = repos
                      \<and> d' = fold (\<lambda>cs. bump (set_order E cs)) (map snd new) d))"
  using assms
proof (induction repos arbitrary: d s)
  case Nil
  then show ?case by auto
next
  case (Cons repo repos)
  show ?case
  proof (cases "get_recent_contributors E (org a) repo (token a) (github_url a) (debug a) s")
    case None
    from main_for_Cons_None [OF None] Cons.prems show ?thesis by simp
  next
    case (Some y)
    obtain r1 s1 where y: "y = (r1, s1)" by (cases y)
    show ?thesis
    proof (cases r1)
      case (Inl e)
      with Some y have c: "get_recent_contributors E (org a) repo (token a) (github_url a) (debug a) s
                             = Some (Inl e, s1)" by simp
      from main_for_Cons_raise [OF c] Cons.prems have "r = Inl e" "s' = s1" by simp_all
      with collector_raises_frame [OF c] show ?thesis by simp
    next
      case (Inr cs)
      with Some y have c: "get_recent_contributors E (org a) repo (token a) (github_url a) (debug a) s
                             = Some (Inr cs, s1)" by simp
      let ?s2 = "snd (count_contributors (debug a) (set_order E cs) d s1)"
      from collector_returns_distinct [OF c] have
        f1: "distinct cs" "files s1 = files s" "collected s1 = collected s @ [(repo, cs)]"
        by simp_all
      have q: "quiet ?s2 = quiet s1" by simp
      from quiet_eqD [OF q] f1 have
        f2: "files ?s2 = files s" "collected ?s2 = collected s @ [(repo, cs)]"
        by simp_all
      from main_for_Cons_ok [OF c] Cons.prems
      have "main_for E a repos (bump (set_order E cs) d) ?s2 = Some (r, s')" by simp
      from Cons.IH [OF this] obtain new where
        new: "files s' = files ?s2" "collected s' = collected ?s2 @ new"
          "list_all (\<lambda>(repo, cs). distinct cs) new"
          "\<forall>d'. r = Inr d' \<longrightarrow> map fst new = repos
                \<and> d' = fold (\<lambda>cs. bump (set_order E cs)) (map snd new) (bump (set_order E cs) d)"
        by blast
      have "collected s' = collected s @ ((repo, cs) # new)"
        using new(2) f2(2) by simp
      moreover have "list_all (\<lambda>(repo, cs). distinct cs) ((repo, cs) # new)"
        using new(3) f1(1) by simp
      moreover have "\<forall>d'. r = Inr d' \<longrightarrow> map fst ((repo, cs) # new) = repo # repos
                \<and> d' = fold (\<lambda>cs. bump (set_order E cs)) (map snd ((repo, cs) # new)) d"
        using new(4) by simp
      moreover have "files s' = files s" using new(1) f2(1) by simp
      ultimately show ?thesis by blast
    qed
  qed
qed

lemma map_of_dict_set: "map_of (dict_set d k v) = (map_of d)(k \<mapsto> v)"
  by (simp add: dict_set_def update_conv')

lemma keys_dict_set: "map fst (dict_set d k v) = set_add k (map fst d)"
  by (auto simp: dict_set_def update_keys set_add_def image_iff)

lemma bump_simps [simp]:
  "bump [] d = d"
  "bump (x # xs) d = bump xs (dict_set d x (dict_get d x 0 + 1))"
  by (simp_all add: bump_def)

lemma keys_bump: "map fst (bump xs d) = fold set_add xs (map fst d)"
  by (induction xs arbitrary: d) (simp_all add: keys_dict_set)

lemma map_of_bump:
  "map_of (bump xs d) l =
     (if l \<in> set xs then Some (dict_get d l 0 + count_list xs l) else map_of d l)"
proof (induction xs arbitrary: d)
  case Nil
  then show ?case by simp
next
  case (Cons x xs)
  have step: "dict_get (dict_set d x (dict_get d x 0 + 1)) l 0 =
              (if l = x then dict_get d l 0 + 1 else dict_get d l 0)"
    by (simp add: dict_get_def map_of_dict_set)
  have here: "map_of (dict_set d x (dict_get d x 0 + 1)) l =
              (if l = x then Some (dict_get d l 0 + 1) else map_of d l)"
    by (simp add: map_of_dict_set)
  have "map_of (bump (x # xs) d) l = map_of (bump xs (dict_set d x (dict_get d x 0 + 1))) l"
    by (simp only: bump_simps)
  also have "\<dots> = (if l \<in> set xs
                    then Some (dict_get (dict_set d x (dict_get d x 0 + 1)) l 0 + count_list xs l)
                    else map_of (dict_set d x (dict_get d x 0 + 1)) l)"
    by (rule Cons.IH)
  also have "\<dots> = (if l \<in> set (x # xs) then Some (dict_get d l 0 + count_list (x # xs) l)
                    else map_of d l)"
    by (simp only: step here) (auto simp: count_list_0_iff)
  finally show ?case .
qed

lemma dict_get_bump: "dict_get (bump xs d) l 0 = dict_get d l 0 + count_list xs l"
  by (simp add: dict_get_def [of "bump xs d"] map_of_bump) (simp add: dict_get_def count_list_0_iff)

lemma count_list_distinct: "distinct xs \<Longrightarrow> count_list xs l = (if l \<in> set xs then 1 else 0)"
  by (induction xs) auto

lemma count_set_order:
  assumes "iterates_once E" and "distinct cs"
  shows "count_list (set_order E cs) l = (if l \<in> set cs then 1 else 0)"
  using assms by (simp add: iterates_once_def count_list_distinct)

lemma set_set_order:
  assumes "iterates_once E" and "distinct cs"
  shows "set (set_order E cs) = set cs"
  using assms by (simp add: iterates_once_def)

lemma repos_with_simps [simp]:
  "repos_with l [] = 0"
  "repos_with l ((repo, cs) # new) = (if l \<in> set cs then 1 else 0) + repos_with l new"
  by (simp_all add: repos_with_def)

lemma map_of_fold_bump:
  assumes "iterates_once E" and "list_all (\<lambda>(repo, cs). distinct cs) new"
  shows "map_of (fold (\<lambda>cs. bump (set_order E cs)) (map snd new) d) l =
           (if repos_with l new = 0 then map_of d l
            else Some (dict_get d l 0 + repos_with l new))"
  using assms(2)
proof (induction new arbitrary: d)
  case Nil
  then show ?case by simp
next
  case (Cons p new)
  obtain repo cs where p: "p = (repo, cs)" by (cases p)
  from Cons.prems p have dist: "distinct cs" and rest: "list_all (\<lambda>(repo, cs). distinct cs) new"
    by simp_all
  let ?d1 = "bump (set_order E cs) d"
  have m1: "map_of ?d1 l = (if l \<in> set cs then Some (dict_get d l 0 + 1) else map_of d l)"
    by (simp add: map_of_bump set_set_order [OF assms(1) dist] count_set_order [OF assms(1) dist])
  have g1: "dict_get ?d1 l 0 = dict_get d l 0 + (if l \<in> set cs then 1 else 0)"
    by (simp add: dict_get_bump count_set_order [OF assms(1) dist])
  have "map_of (fold (\<lambda>cs. bump (set_order E cs)) (map snd (p # new)) d) l =
        map_of (fold (\<lambda>cs. bump (set_order E cs)) (map snd new) ?d1) l"
    by (simp add: p)
  also have "\<dots> = (if repos_with l new = 0 then map_of ?d1 l
                    else Some (dict_get ?d1 l 0 + repos_with l new))"
    by (rule Cons.IH [OF rest])
  also have "\<dots> = (if repos_with l (p # new) = 0 then map_of d l
                    else Some (dict_get d l 0 + repos_with l (p # new)))"
    by (simp only: m1 g1 p) auto
  finally show ?case .
qed

lemma keys_fold_bump:
  "map fst (fold (\<lambda>cs. bump (set_order E cs)) (map snd new) d) =
     fold set_add (concat (map (\<lambda>(repo, cs). set_order E cs) new)) (map fst d)"
proof (induction new arbitrary: d)
  case Nil
  then show ?case by simp
next
  case (Cons p new)
  obtain repo cs where p: "p = (repo, cs)" by (cases p)
  show ?case
    by (simp add: p Cons.IH keys_bump)
qed

lemma distinct_keys_fold_bump:
  assumes "distinct (map fst d)"
  shows "distinct (map fst (fold (\<lambda>cs. bump (set_order E cs)) (map snd new) d))"
  using assms by (simp add: keys_fold_bump distinct_fold_set_add)

lemma quiet_files_update [simp]: "quiet (s\<lparr>files := f\<rparr>) = (quiet s)\<lparr>files := f\<rparr>"
  by (simp add: quiet_def)

lemma quiet_writerow: "apsnd quiet (writerow E fn row s) = writerow E fn row (quiet s)"
  by (simp add: writerow_def Let_def split: disk.splits)

lemma writerow_quiet_eq:
  assumes "writerow E fn row s = (r, s1)"
  shows "writerow E fn row (quiet s) = (r, quiet s1)"
  using quiet_writerow [of E fn row s] assms by simp

lemma quiet_write_rows:
  "apsnd quiet (write_rows E d fn dbg s) = write_rows E d fn False (quiet s)"
proof (induction d arbitrary: s)
  case Nil
  show ?case by simp
next
  case (Cons p d)
  obtain developer count where p: "p = (developer, count)" by (cases p)
  obtain r s1 where w: "writerow E fn [developer, str count] s = (r, s1)"
    by (cases "writerow E fn [developer, str count] s")
  note wq = writerow_quiet_eq [OF w]
  show ?case
  proof (cases r)
    case (Inl e)
    with w wq show ?thesis by (simp add: p)
  next
    case (Inr u)
    with w wq Cons.IH show ?thesis by (simp add: p)
  qed
qed

lemma quiet_close_file: "apsnd quiet (close_file E fn s) = close_file E fn (quiet s)"
  by (simp add: close_file_def split: disk.splits)

lemma quiet_write_to_csv:
  "apsnd quiet (write_to_csv E d fn dbg s) = write_to_csv E d fn False (quiet s)"
proof (cases "disk E fn = NoOpen")
  case True
  then show ?thesis by (simp add: write_to_csv_def)
next
  case False
  let ?s1 = "s\<lparr>files := (files s)(fn \<mapsto> [])\<rparr>"
  let ?X = "\<lambda>dbg s1. case writerow E fn [''Developer'', ''Number of Repos''] s1 of
                (Inl e, s2) \<Rightarrow> (Inl e, s2)
              | (Inr u, s2) \<Rightarrow> write_rows E d fn dbg s2"
  have q1: "quiet ?s1 = (quiet s)\<lparr>files := (files (quiet s))(fn \<mapsto> [])\<rparr>"
    by simp
  obtain r2 s2 where h: "writerow E fn [''Developer'', ''Number of Repos''] ?s1 = (r2, s2)"
    by (cases "writerow E fn [''Developer'', ''Number of Repos''] ?s1")
  note hq = writerow_quiet_eq [OF h]
  have X: "apsnd quiet (?X dbg ?s1) = ?X False (quiet ?s1)"
  proof (cases r2)
    case (Inl e)
    with h hq show ?thesis by simp
  next
    case (Inr u)
    with h hq quiet_write_rows [of E d fn dbg s2] show ?thesis by simp
  qed
  obtain r3 s3 where x: "?X dbg ?s1 = (r3, s3)" by (cases "?X dbg ?s1")
  with X have xq: "?X False (quiet ?s1) = (r3, quiet s3)" by simp
  obtain r4 s4 where c: "close_file E fn s3 = (r4, s4)" by (cases "close_file E fn s3")
  with quiet_close_file [of E fn s3] have cq: "close_file E fn (quiet s3) = (r4, quiet s4)" by simp
  have L: "write_to_csv E d fn dbg s =
             (case r3 of Inl e \<Rightarrow> (Inl e, s4)
              | Inr u \<Rightarrow> (case r4 of Inl e \<Rightarrow> (Inl e, s4)
                   | Inr u' \<Rightarrow> (Inr (), if dbg
                       then print_line (Text (''CSV file '' @ [CHR 0x27] @ fn @ [CHR 0x27]
                              @ '' has been created.'')) s4
                       else s4)))"
    using False x c by (simp add: write_to_csv_def Let_def split: sum.splits)
  have R: "write_to_csv E d fn False (quiet s) =
             (case r3 of Inl e \<Rightarrow> (Inl e, quiet s4)
              | Inr u \<Rightarrow> (case r4 of Inl e \<Rightarrow> (Inl e, quiet s4)
                   | Inr u' \<Rightarrow> (Inr (), quiet s4)))"
    using False xq cq unfolding q1 by (simp add: write_to_csv_def Let_def split: sum.splits)
  show ?thesis
    unfolding L R by (simp split: sum.splits)
qed

lemma write_rows_files:
  assumes "writable E fn" and "files s fn = Some rows"
  shows "write_rows E d fn False s =
           (Inr (), s\<lparr>files := (files s)(fn \<mapsto> rows @ map (\<lambda>(developer, count). [developer, str count]) d)\<rparr>)"
  using assms(2)
proof (induction d arbitrary: s rows)
  case Nil
  then show ?case by (simp add: fun_upd_idem)
next
  case (Cons p d)
  obtain developer count where p: "p = (developer, count)" by (cases p)
  let ?s1 = "s\<lparr>files := (files s)(fn \<mapsto> rows @ [[developer, str count]])\<rparr>"
  have w: "writerow E fn [developer, str count] s = (Inr (), ?s1)"
    using assms(1) Cons.prems by (simp add: writerow_def writable_def)
  have f1: "files ?s1 fn = Some (rows @ [[developer, str count]])"
    by simp
  have "write_rows E (p # d) fn False s = write_rows E d fn False ?s1"
    by (simp add: p w)
  also have "\<dots> = (Inr (), ?s1\<lparr>files := (files ?s1)(fn \<mapsto>
                 (rows @ [[developer, str count]]) @ map (\<lambda>(developer, count). [developer, str count]) d)\<rparr>)"
    by (rule Cons.IH [OF f1])
  also have "\<dots> = (Inr (), s\<lparr>files := (files s)(fn \<mapsto>
                 rows @ map (\<lambda>(developer, count). [developer, str count]) (p # d))\<rparr>)"
    by (simp add: p)
  finally show ?case .
qed

lemma write_to_csv_quiet_ok:
  assumes "writable E fn"
  shows "write_to_csv E d fn False s = (Inr (), s\<lparr>files := (files s)(fn \<mapsto> csv_rows d)\<rparr>)"
proof -
  let ?s1 = "s\<lparr>files := (files s)(fn \<mapsto> [])\<rparr>"
  let ?s2 = "s\<lparr>files := (files s)(fn \<mapsto> [[''Developer'', ''Number of Repos'']])\<rparr>"
  have h: "writerow E fn [''Developer'', ''Number of Repos''] ?s1 = (Inr (), ?s2)"
    using assms by (simp add: writerow_def writable_def)
  have f2: "files ?s2 fn = Some [[''Developer'', ''Number of Repos'']]"
    by simp
  have r: "write_rows E d fn False ?s2 = (Inr (), s\<lparr>files := (files s)(fn \<mapsto> csv_rows d)\<rparr>)"
    unfolding write_rows_files [OF assms f2] by (simp add: csv_rows_def)
  from assms have nn: "disk E fn \<noteq> NoOpen" by (simp add: writable_def)
  show ?thesis
    using assms by (simp add: write_to_csv_def nn Let_def h r close_file_def writable_def)
qed

lemma write_to_csv_ok:
  assumes "writable E fn"
  shows "fst (write_to_csv E d fn dbg s) = Inr ()"
    and "quiet (snd (write_to_csv E d fn dbg s)) = (quiet s)\<lparr>files := (files s)(fn \<mapsto> csv_rows d)\<rparr>"
proof -
  from quiet_write_to_csv [of E d fn dbg s] write_to_csv_quiet_ok [OF assms, of d "quiet s"]
  have e: "apsnd quiet (write_to_csv E d fn dbg s)
             = (Inr (), (quiet s)\<lparr>files := (files s)(fn \<mapsto> csv_rows d)\<rparr>)"
    by simp
  from e show "fst (write_to_csv E d fn dbg s) = Inr ()"
    by (cases "write_to_csv E d fn dbg s") simp
  from e show "quiet (snd (write_to_csv E d fn dbg s)) = (quiet s)\<lparr>files := (files s)(fn \<mapsto> csv_rows d)\<rparr>"
    by (cases "write_to_csv E d fn dbg s") simp
qed

lemma writerow_error:
  assumes "writerow E fn row s = (Inl e, s1)"
  shows "e = IOError fn"
  using assms by (simp add: writerow_def Let_def split: disk.splits if_splits)

lemma write_rows_error:
  assumes "write_rows E d fn dbg s = (Inl e, s1)"
  shows "e = IOError fn"
  using assms
proof (induction d arbitrary: s)
  case Nil
  then show ?case by simp
next
  case (Cons p d)
  obtain developer count where p: "p = (developer, count)" by (cases p)
  obtain r s2 where w: "writerow E fn [developer, str count] s = (r, s2)"
    by (cases "writerow E fn [developer, str count] s")
  show ?case
  proof (cases r)
    case (Inl e')
    with w Cons.prems have "e = e'" by (simp add: p)
    with Inl w writerow_error [of E fn "[developer, str count]" s e' s2] show ?thesis by simp
  next
    case (Inr u)
    with w Cons.prems Cons.IH show ?thesis by (simp add: p)
  qed
qed

lemma write_to_csv_fail:
  assumes "\<not> writable E fn"
  shows "fst (write_to_csv E d fn dbg s) = Inl (IOError fn)"
proof (cases "disk E fn")
  case Fine
  with assms show ?thesis by (simp add: writable_def)
next
  case NoOpen
  then show ?thesis by (simp add: write_to_csv_def)
next
  case (Breaks i kept)
  let ?s1 = "s\<lparr>files := (files s)(fn \<mapsto> [])\<rparr>"
  let ?X = "case writerow E fn [''Developer'', ''Number of Repos''] ?s1 of
                (Inl e, s2) \<Rightarrow> (Inl e, s2)
              | (Inr u, s2) \<Rightarrow> write_rows E d fn dbg s2"
  obtain r3 s3 where x: "?X = (r3, s3)" by (cases ?X)
  have c: "fst (close_file E fn s3) = Inl (IOError fn)"
    by (simp add: close_file_def Breaks)
  show ?thesis
  proof (cases r3)
    case (Inl e)
    obtain r2 s2 where h: "writerow E fn [''Developer'', ''Number of Repos''] ?s1 = (r2, s2)"
      by (cases "writerow E fn [''Developer'', ''Number of Repos''] ?s1")
    have "e = IOError fn"
    proof (cases r2)
      case (Inl e')
      with h x \<open>r3 = Inl e\<close> have "e = e'" by simp
      with Inl h writerow_error [of E fn _ ?s1 e' s2] show ?thesis by simp
    next
      case (Inr u)
      with h x \<open>r3 = Inl e\<close> have "write_rows E d fn dbg s2 = (Inl e, s3)" by simp
      then show ?thesis by (rule write_rows_error)
    qed
    with Inl x Breaks show ?thesis by (simp add: write_to_csv_def Let_def)
  next
    case (Inr u)
    with x c Breaks show ?thesis
      by (cases "close_file E fn s3") (simp add: write_to_csv_def Let_def)
  qed
qed

lemma get_repositories_effect:
  assumes "get_repositories E og tok b ex dbg s = Some (r, s1)"
  shows "\<exists>k. repos_run E b og tok 1 k
           \<and> r = Inr (filter (included E ex) (map name (repos_pages E b og tok 1 k)))
           \<and> quiet s1 = fold (sent E) (repos_urls b og 1 (Suc k)) (quiet s)"
proof -
  from get_repositories_inv [OF assms] obtain k where k: "repos_run E b og tok 1 k" ..
  from get_repositories_run [OF k, of ex dbg s] assms k show ?thesis by auto
qed

lemma main_unfold:
  assumes "get_repositories E (org a) (token a) (github_url a) (exclude a) (debug a) s
             = Some (Inr repos, s1)"
  shows "main E a s =
           (case main_for E a repos [] s1 of
              None \<Rightarrow> None
            | Some (Inl e, s2) \<Rightarrow> Some (Inl e, s2)
            | Some (Inr d, s2) \<Rightarrow>
                Some (write_to_csv E d (output_csv a) (debug a)
                        (print_line (summary (org a) (length d)) s2)))"
  by (simp add: main_def assms)

lemma main_effect:
  assumes "main E a s = Some (r, s')"
  shows "\<exists>repos s1 r2 s2.
           get_repositories E (org a) (token a) (github_url a) (exclude a) (debug a) s
             = Some (Inr repos, s1)
           \<and> main_for E a repos [] s1 = Some (r2, s2)
           \<and> (case r2 of
                 Inl e \<Rightarrow> r = Inl e \<and> s' = s2
               | Inr d \<Rightarrow> write_to_csv E d (output_csv a) (debug a)
                            (print_line (summary (org a) (length d)) s2) = (r, s'))"
proof (cases "get_repositories E (org a) (token a) (github_url a) (exclude a) (debug a) s")
  case None
  with assms show ?thesis by (simp add: main_def)
next
  case (Some y)
  obtain rl s1 where y: "y = (rl, s1)" by (cases y)
  from get_repositories_effect [of E "org a" "token a" "github_url a" "exclude a" "debug a" s rl s1]
    Some y obtain repos where "rl = Inr repos" by auto
  with Some y have l: "get_repositories E (org a) (token a) (github_url a) (exclude a) (debug a) s
                         = Some (Inr repos, s1)" by simp
  show ?thesis
  proof (cases "main_for E a repos [] s1")
    case None
    with assms main_unfold [OF l] show ?thesis by simp
  next
    case (Some z)
    obtain r2 s2 where z: "z = (r2, s2)" by (cases z)
    show ?thesis
    proof (cases r2)
      case (Inl e)
      with assms main_unfold [OF l] Some z l show ?thesis by simp
    next
      case (Inr d)
      with assms main_unfold [OF l] Some z l show ?thesis by simp
    qed
  qed
qed

lemma files_of_quiet: "quiet s2 = t \<Longrightarrow> files s2 = files t"
  by (metis quiet_fields(3))

lemma collected_of_quiet: "quiet s2 = t \<Longrightarrow> collected s2 = collected t"
  by (metis quiet_fields(4))

lemma main_ok_effect:
  assumes "main E a s = Some (Inr (), s')"
  shows "\<exists>repos d new s1.
           get_repositories E (org a) (token a) (github_url a) (exclude a) (debug a) s
             = Some (Inr repos, s1)
           \<and> writable E (output_csv a)
           \<and> files s' = (files s)(output_csv a \<mapsto> csv_rows d)
           \<and> collected s' = collected s @ new
           \<and> map fst new = repos
           \<and> list_all (\<lambda>(repo, cs). distinct cs) new
           \<and> d = fold (\<lambda>cs. bump (set_order E cs)) (map snd new) []"
proof -
  from main_effect [OF assms] obtain repos s1 r2 s2 where
    l: "get_repositories E (org a) (token a) (github_url a) (exclude a) (debug a) s
          = Some (Inr repos, s1)"
    and m: "main_for E a repos [] s1 = Some (r2, s2)"
    and w: "case r2 of
              Inl e \<Rightarrow> Inr () = Inl e \<and> s' = s2
            | Inr d \<Rightarrow> write_to_csv E d (output_csv a) (debug a)
                         (print_line (summary (org a) (length d)) s2) = (Inr (), s')"
    by blast
  from w obtain d where r2: "r2 = Inr d"
    and w2: "write_to_csv E d (output_csv a) (debug a)
               (print_line (summary (org a) (length d)) s2) = (Inr (), s')"
    by (cases r2) simp_all
  let ?s3 = "print_line (summary (org a) (length d)) s2"
  have wr: "writable E (output_csv a)"
  proof (rule ccontr)
    assume "\<not> writable E (output_csv a)"
    from write_to_csv_fail [OF this, of d "debug a" ?s3] w2 show False by simp
  qed
  from write_to_csv_ok(2) [OF wr, of d "debug a" ?s3] w2
  have q: "quiet s' = (quiet ?s3)\<lparr>files := (files ?s3)(output_csv a \<mapsto> csv_rows d)\<rparr>"
    by simp
  from get_repositories_effect [OF l] obtain k where
    q1: "quiet s1 = fold (sent E) (repos_urls (github_url a) (org a) 1 (Suc k)) (quiet s)"
    by blast
  from files_of_quiet [OF q1] collected_of_quiet [OF q1]
  have f1: "files s1 = files s" "collected s1 = collected s" by simp_all
  from main_for_effect [OF m] r2 obtain new where
    f2: "files s2 = files s1" "collected s2 = collected s1 @ new"
      "list_all (\<lambda>(repo, cs). distinct cs) new" "map fst new = repos"
      "d = fold (\<lambda>cs. bump (set_order E cs)) (map snd new) []"
    by auto
  from files_of_quiet [OF q] collected_of_quiet [OF q] f1 f2
  have "files s' = (files s)(output_csv a \<mapsto> csv_rows d)" "collected s' = collected s @ new"
    by simp_all
  with l wr f2 show ?thesis by blast
qed

lemmas run_simps =
  main_def get_repositories_def get_repositories_while.simps get_github_api_def
  get_recent_contributors_def get_recent_contributors_while.simps
  ascii_lower_def ascii_lower_char_def sublist_code set_add_def dict_get_def dict_set_def print_line_def
  summary_def write_to_csv_def writerow_def close_file_def str.simps digit_def Let_def
  timedelta_days_90_def

lemma acme_run:
  "map_option (\<lambda>(r, s'). (r, files s' ''out.csv'', collected s', stdout s'))
     (main acme acme_args world0)
   = Some (Inr (),
           Some [[''Developer'', ''Number of Repos''], [''alice'', ''2''], [''bob'', ''1'']],
           [(''api'', [''alice'', ''bob'']), (''web'', [''alice''])],
           [Text ''Total unique developers in acme who have committed in the past 90 days: 2''])"
  by (simp add: run_simps acme_def acme_args_def world0_def)

lemma map_option_fst_Some:
  "map_option fst x = Some r \<Longrightarrow> \<exists>s'. x = Some (r, s')"
  by (cases x) auto

text \<open>
  C6. The CSV writer produces exactly the header row \<open>Developer,Number of Repos\<close> followed
  by one row \<open><login>,<count>\<close> for each entry of the aggregate map, in the map's
  iteration order, whatever the file held before; the other files are left as they
  were. The map's order is the order of first insertion: setting a key that is present
  keeps its place, a new key goes last; so after a run the developers appear in the
  order in which the run first met them when iterating over the contributor sets.
\<close>

theorem csv_rows_in_insertion_order:
  "(writable E fn \<longrightarrow>
      fst (write_to_csv E d fn dbg s) = Inr ()
      \<and> files (snd (write_to_csv E d fn dbg s)) =
          (files s)(fn \<mapsto> [''Developer'', ''Number of Repos'']
                           # map (\<lambda>(developer, count). [developer, str count]) d))
   \<and> map fst (dict_set d k v) = (if k \<in> set (map fst d) then map fst d else map fst d @ [k])
   \<and> (map_option fst (main E a s) = Some (Inr ()) \<longrightarrow>
        (\<exists>s' d' new. main E a s = Some (Inr (), s')
           \<and> collected s' = collected s @ new
           \<and> files s' = (files s)(output_csv a \<mapsto> [''Developer'', ''Number of Repos'']
                           # map (\<lambda>(developer, count). [developer, str count]) d')
           \<and> map fst d' = fold set_add (concat (map (\<lambda>(repo, cs). set_order E cs) new)) []))"
proof (intro conjI impI)
  assume w: "writable E fn"
  show "fst (write_to_csv E d fn dbg s) = Inr ()"
    by (rule write_to_csv_ok(1) [OF w])
  from files_of_quiet [OF write_to_csv_ok(2) [OF w, of d dbg s]]
  show "files (snd (write_to_csv E d fn dbg s)) =
          (files s)(fn \<mapsto> [''Developer'', ''Number of Repos'']
                           # map (\<lambda>(developer, count). [developer, str count]) d)"
    by (simp add: csv_rows_def)
next
  show "map fst (dict_set d k v) = (if k \<in> set (map fst d) then map fst d else map fst d @ [k])"
    by (simp add: keys_dict_set set_add_def)
next
  assume "map_option fst (main E a s) = Some (Inr ())"
  from map_option_fst_Some [OF this] obtain s' where m: "main E a s = Some (Inr (), s')" ..
  from main_ok_effect [OF m] obtain d' new where
    "files s' = (files s)(output_csv a \<mapsto> csv_rows d')"
    "collected s' = collected s @ new"
    "d' = fold (\<lambda>cs. bump (set_order E cs)) (map snd new) []"
    by blast
  then have "collected s' = collected s @ new
           \<and> files s' = (files s)(output_csv a \<mapsto> [''Developer'', ''Number of Repos'']
                           # map (\<lambda>(developer, count). [developer, str count]) d')
           \<and> map fst d' = fold set_add (concat (map (\<lambda>(repo, cs). set_order E cs) new)) []"
    by (simp add: csv_rows_def keys_fold_bump)
  with m show "\<exists>s' d' new. main E a s = Some (Inr (), s')
           \<and> collected s' = collected s @ new
           \<and> files s' = (files s)(output_csv a \<mapsto> [''Developer'', ''Number of Repos'']
                           # map (\<lambda>(developer, count). [developer, str count]) d')
           \<and> map fst d' = fold set_add (concat (map (\<lambda>(repo, cs). set_order E cs) new)) []"
    by blast
qed


lemma acme_rerun:
  "map_option (\<lambda>(r, s'). (r, collected s')) (main acme acme_args stale_report)
   = Some (Inr (), [(''api'', [''alice'', ''bob'']), (''web'', [''alice''])])"
  by (simp add: run_simps acme_def acme_args_def world0_def stale_report_def)

theorem csv_rows_in_insertion_order_witness:
  "writable acme ''out.csv''
   \<and> files (snd (write_to_csv acme [(''alice'', 2), (''bob'', 1)] ''out.csv'' False stale_report)) ''out.csv''
       = Some [[''Developer'', ''Number of Repos''], [''alice'', ''2''], [''bob'', ''1'']]
   \<and> map fst (dict_set [(''alice'', 2), (''bob'', 1)] ''alice'' 3) = [''alice'', ''bob'']
   \<and> (\<exists>s' d'. main acme acme_args stale_report = Some (Inr (), s')
          \<and> files s' ''out.csv'' = Some ([''Developer'', ''Number of Repos'']
                                        # map (\<lambda>(developer, count). [developer, str count]) d')
          \<and> map fst d' = [''alice'', ''bob''])"
proof -
  note T = csv_rows_in_insertion_order [of acme "''out.csv''" "[(''alice'', 2), (''bob'', 1)]" False
             stale_report "''alice''" 3 acme_args]
  have w: "writable acme ''out.csv''"
    by (simp add: writable_def acme_def)
  have res: "map_option fst (main acme acme_args stale_report) = Some (Inr ())"
    using acme_rerun by (cases "main acme acme_args stale_report") auto
  from T [THEN conjunct1, THEN mp, OF w, THEN conjunct2]
  have A: "files (snd (write_to_csv acme [(''alice'', 2), (''bob'', 1)] ''out.csv'' False stale_report)) ''out.csv''
       = Some [[''Developer'', ''Number of Repos''], [''alice'', ''2''], [''bob'', ''1'']]"
    by (simp add: str.simps digit_def)
  from T [THEN conjunct2, THEN conjunct1]
  have B: "map fst (dict_set [(''alice'', 2), (''bob'', 1)] ''alice'' 3) = [''alice'', ''bob'']"
    by simp
  from T [THEN conjunct2, THEN conjunct2, THEN mp, OF res] obtain s' d' new where
    m: "main acme acme_args stale_report = Some (Inr (), s')"
    and c: "collected s' = collected stale_report @ new"
    and f: "files s' = (files stale_report)(output_csv acme_args \<mapsto> [''Developer'', ''Number of Repos'']
                           # map (\<lambda>(developer, count). [developer, str count]) d')"
    and k: "map fst d' = fold set_add (concat (map (\<lambda>(repo, cs). set_order acme cs) new)) []"
    by blast
  from acme_rerun m have "collected s' = [(''api'', [''alice'', ''bob'']), (''web'', [''alice''])]"
    by simp
  with c have new: "new = [(''api'', [''alice'', ''bob'']), (''web'', [''alice''])]"
    by (simp add: stale_report_def world0_def)
  from k have K: "map fst d' = [''alice'', ''bob'']"
    by (simp add: new acme_def set_add_def)
  from f have F: "files s' ''out.csv'' = Some ([''Developer'', ''Number of Repos'']
                                        # map (\<lambda>(developer, count). [developer, str count]) d')"
    by (simp add: acme_args_def)
  have C: "\<exists>s' d'. main acme acme_args stale_report = Some (Inr (), s')
          \<and> files s' ''out.csv'' = Some ([''Developer'', ''Number of Repos'']
                                        # map (\<lambda>(developer, count). [developer, str count]) d')
          \<and> map fst d' = [''alice'', ''bob'']"
    by (rule exI [of _ s'], rule exI [of _ d']) (simp only: m F K simp_thms)
  from w A B C show ?thesis by (intro conjI)
qed

lemma repos_with_distinct:
  assumes "distinct (map fst new)"
  shows "repos_with l new = distinct_repos_with l new"
proof -
  from assms have "distinct (map fst (filter (\<lambda>(repo, cs). l \<in> set cs) new))"
    by (rule distinct_map_filter)
  then show ?thesis
    by (simp add: repos_with_def distinct_repos_with_def distinct_remdups_id)
qed

text \<open>
  C1, as the code has it. After a run that ends normally, the count recorded for a
  login is the number of contributor sets returned during the run that contain it, one
  set for each entry of the list returned by the repository lister, and a login with no
  such set is not recorded; each set adds at most 1, however many commits the login has
  in the repository. When no name occurs twice in the lister's list, this is the number
  of distinct repositories whose contributor set contains the login. A name that the
  lister returns twice is collected and counted twice.
\<close>

theorem aggregate_counts:
  assumes "iterates_once E" and "map_option fst (main E a s) = Some (Inr ())"
  shows "\<exists>s' d new repos s1.
           main E a s = Some (Inr (), s')
           \<and> get_repositories E (org a) (token a) (github_url a) (exclude a) (debug a) s
               = Some (Inr repos, s1)
           \<and> collected s' = collected s @ new \<and> map fst new = repos
           \<and> files s' (output_csv a) =
               Some ([''Developer'', ''Number of Repos'']
                     # map (\<lambda>(developer, count). [developer, str count]) d)
           \<and> (\<forall>l. map_of d l = (if repos_with l new = 0 then None else Some (repos_with l new)))
           \<and> (distinct repos \<longrightarrow> (\<forall>l. repos_with l new = distinct_repos_with l new))"
proof -
  from map_option_fst_Some [OF assms(2)] obtain s' where m: "main E a s = Some (Inr (), s')" ..
  from main_ok_effect [OF m] obtain repos d new s1 where
    l: "get_repositories E (org a) (token a) (github_url a) (exclude a) (debug a) s
          = Some (Inr repos, s1)"
    and f: "files s' = (files s)(output_csv a \<mapsto> csv_rows d)"
    and c: "collected s' = collected s @ new" "map fst new = repos"
    and dist: "list_all (\<lambda>(repo, cs). distinct cs) new"
    and d: "d = fold (\<lambda>cs. bump (set_order E cs)) (map snd new) []"
    by blast
  from f have f': "files s' (output_csv a) =
               Some ([''Developer'', ''Number of Repos'']
                     # map (\<lambda>(developer, count). [developer, str count]) d)"
    by (simp add: csv_rows_def)
  have counts: "\<forall>l. map_of d l = (if repos_with l new = 0 then None else Some (repos_with l new))"
    using map_of_fold_bump [OF assms(1) dist, of "[]"] by (simp add: d dict_get_def)
  have once: "distinct repos \<longrightarrow> (\<forall>l. repos_with l new = distinct_repos_with l new)"
    using c(2) repos_with_distinct by blast
  show ?thesis
    apply (rule exI [of _ s'], rule exI [of _ d], rule exI [of _ new], rule exI [of _ repos],
           rule exI [of _ s1])
    apply (intro conjI)
          apply (rule m)
         apply (rule l)
        apply (rule c(1))
       apply (rule c(2))
      apply (rule f')
     apply (rule counts)
    apply (rule once)
    done
qed

theorem aggregate_counts_counterexample:
  "map_option (\<lambda>(r, s'). (r, files s' ''out.csv'', collected s',
                 repos_with ''alice'' (collected s'), distinct_repos_with ''alice'' (collected s')))
     (main listed_twice acme_args world0)
   = Some (Inr (),
           Some [[''Developer'', ''Number of Repos''], [''alice'', ''2'']],
           [(''api'', [''alice'']), (''api'', [''alice''])],
           2, 1)"
  by (simp add: run_simps listed_twice_def acme_args_def world0_def
        repos_with_def distinct_repos_with_def)


theorem aggregate_counts_witness:
  "iterates_once acme
   \<and> (\<exists>s' d. main acme acme_args world0 = Some (Inr (), s')
          \<and> collected s' = [(''api'', [''alice'', ''bob'']), (''web'', [''alice''])]
          \<and> files s' ''out.csv'' =
               Some ([''Developer'', ''Number of Repos'']
                     # map (\<lambda>(developer, count). [developer, str count]) d)
          \<and> map_of d ''alice'' = Some 2 \<and> map_of d ''bob'' = Some 1 \<and> map_of d ''carol'' = None
          \<and> distinct (map fst (collected s'))
          \<and> (\<forall>l. repos_with l (collected s') = distinct_repos_with l (collected s')))"
proof -
  have it: "iterates_once acme"
    by (simp add: iterates_once_def acme_def)
  have res: "map_option fst (main acme acme_args world0) = Some (Inr ())"
    using acme_run by (cases "main acme acme_args world0") auto
  from aggregate_counts [OF it res] obtain s' d new repos where
    m: "main acme acme_args world0 = Some (Inr (), s')"
    and c: "collected s' = collected world0 @ new" "map fst new = repos"
    and f: "files s' (output_csv acme_args) =
               Some ([''Developer'', ''Number of Repos'']
                     # map (\<lambda>(developer, count). [developer, str count]) d)"
    and n: "\<forall>l. map_of d l = (if repos_with l new = 0 then None else Some (repos_with l new))"
    and o: "distinct repos \<longrightarrow> (\<forall>l. repos_with l new = distinct_repos_with l new)"
    by blast
  from acme_run m have cs: "collected s' = [(''api'', [''alice'', ''bob'']), (''web'', [''alice''])]"
    by simp
  with c have new: "new = [(''api'', [''alice'', ''bob'']), (''web'', [''alice''])]"
    by (simp add: world0_def)
  from c(2) have D: "distinct repos" "distinct (map fst (collected s'))"
    by (auto simp: new cs)
  with o have O: "\<forall>l. repos_with l (collected s') = distinct_repos_with l (collected s')"
    by (simp add: new cs)
  from f have F: "files s' ''out.csv'' =
               Some ([''Developer'', ''Number of Repos'']
                     # map (\<lambda>(developer, count). [developer, str count]) d)"
    by (simp add: acme_args_def)
  from n have A: "map_of d ''alice'' = Some 2" by (simp add: new)
  from n have B: "map_of d ''bob'' = Some 1" by (simp add: new)
  from n have C: "map_of d ''carol'' = None" by (simp add: new)
  have "\<exists>s' d. main acme acme_args world0 = Some (Inr (), s')
          \<and> collected s' = [(''api'', [''alice'', ''bob'']), (''web'', [''alice''])]
          \<and> files s' ''out.csv'' =
               Some ([''Developer'', ''Number of Repos'']
                     # map (\<lambda>(developer, count). [developer, str count]) d)
          \<and> map_of d ''alice'' = Some 2 \<and> map_of d ''bob'' = Some 1 \<and> map_of d ''carol'' = None
          \<and> distinct (map fst (collected s'))
          \<and> (\<forall>l. repos_with l (collected s') = distinct_repos_with l (collected s'))"
    using m cs F A B C D(2) O
    by (intro exI [of _ s'] exI [of _ d] conjI)
  with it show ?thesis by (intro conjI)
qed

lemma collector_errors:
  assumes "get_recent_contributors E og repo tok b dbg s = Some (Inl e, s1)"
  shows "(\<exists>m. e = RequestException m) \<or> e = KeyError ''author''"
proof -
  from collector_effect [OF assms] obtain k where
    "Inl e = collector_outcome E b og repo (clock s - timedelta_days_90) tok k" by blast
  then show ?thesis
    by (auto simp: collector_outcome_def collector_end_def split: response.splits if_splits)
qed

lemma main_for_errors:
  assumes "main_for E a repos d s = Some (Inl e, s')"
  shows "(\<exists>m. e = RequestException m) \<or> e = KeyError ''author''"
  using assms
proof (induction repos arbitrary: d s)
  case Nil
  then show ?case by simp
next
  case (Cons repo repos)
  show ?case
  proof (cases "get_recent_contributors E (org a) repo (token a) (github_url a) (debug a) s")
    case None
    from main_for_Cons_None [OF None] Cons.prems show ?thesis by simp
  next
    case (Some y)
    obtain r1 s1 where y: "y = (r1, s1)" by (cases y)
    show ?thesis
    proof (cases r1)
      case (Inl e1)
      with Some y have c: "get_recent_contributors E (org a) repo (token a) (github_url a) (debug a) s
                             = Some (Inl e1, s1)" by simp
      from main_for_Cons_raise [OF c] Cons.prems have "e = e1" by simp
      with collector_errors [OF c] show ?thesis by simp
    next
      case (Inr cs)
      with Some y have c: "get_recent_contributors E (org a) repo (token a) (github_url a) (debug a) s
                             = Some (Inr cs, s1)" by simp
      from main_for_Cons_ok [OF c] Cons.prems Cons.IH show ?thesis by simp
    qed
  qed
qed

lemma stdout_writerow: "stdout (snd (writerow E fn row s)) = stdout s"
  by (simp add: writerow_def Let_def split: disk.splits)

lemma stdout_close_file: "stdout (snd (close_file E fn s)) = stdout s"
  by (simp add: close_file_def split: disk.splits)

lemma stdout_write_rows: "\<exists>ls. stdout (snd (write_rows E d fn dbg s)) = stdout s @ ls"
proof (induction d arbitrary: s)
  case Nil
  have "stdout (snd (write_rows E [] fn dbg s)) = stdout s @ []" by simp
  then show ?case ..
next
  case (Cons p d)
  obtain developer count where p: "p = (developer, count)" by (cases p)
  obtain r s1 where w: "writerow E fn [developer, str count] s = (r, s1)"
    by (cases "writerow E fn [developer, str count] s")
  from stdout_writerow [of E fn "[developer, str count]" s] w have o1: "stdout s1 = stdout s"
    by simp
  show ?case
  proof (cases r)
    case (Inl e)
    with w o1 have "stdout (snd (write_rows E (p # d) fn dbg s)) = stdout s @ []"
      by (simp add: p)
    then show ?thesis ..
  next
    case (Inr u)
    let ?s2 = "if dbg
        then print_line (Text (''Wrote developer '' @ [CHR 0x27] @ developer @ [CHR 0x27]
               @ '' with count '' @ str count @ '' to CSV.'')) s1
        else s1"
    have "\<exists>l1. stdout ?s2 = stdout s @ l1"
      using o1 by simp
    then obtain l1 where l1: "stdout ?s2 = stdout s @ l1" ..
    from Cons.IH [of ?s2] obtain l2 where
      "stdout (snd (write_rows E d fn dbg ?s2)) = stdout ?s2 @ l2" ..
    with l1 Inr w have "stdout (snd (write_rows E (p # d) fn dbg s)) = stdout s @ (l1 @ l2)"
      by (simp add: p)
    then show ?thesis ..
  qed
qed

lemma stdout_write_to_csv: "\<exists>ls. stdout (snd (write_to_csv E d fn dbg s)) = stdout s @ ls"
proof (cases "disk E fn = NoOpen")
  case True
  then have "stdout (snd (write_to_csv E d fn dbg s)) = stdout s @ []"
    by (simp add: write_to_csv_def)
  then show ?thesis ..
next
  case False
  let ?s1 = "s\<lparr>files := (files s)(fn \<mapsto> [])\<rparr>"
  let ?X = "case writerow E fn [''Developer'', ''Number of Repos''] ?s1 of
                (Inl e, s2) \<Rightarrow> (Inl e, s2)
              | (Inr u, s2) \<Rightarrow> write_rows E d fn dbg s2"
  obtain r2 s2 where h: "writerow E fn [''Developer'', ''Number of Repos''] ?s1 = (r2, s2)"
    by (cases "writerow E fn [''Developer'', ''Number of Repos''] ?s1")
  from stdout_writerow [of E fn "[''Developer'', ''Number of Repos'']" ?s1] h
  have o2: "stdout s2 = stdout s" by simp
  obtain r3 s3 where x: "?X = (r3, s3)" by (cases ?X)
  have "\<exists>ls. stdout s3 = stdout s @ ls"
  proof (cases r2)
    case (Inl e)
    with h x o2 have "stdout s3 = stdout s @ []" by simp
    then show ?thesis ..
  next
    case (Inr u)
    with h x have "write_rows E d fn dbg s2 = (r3, s3)" by simp
    with stdout_write_rows [of E d fn dbg s2] o2 show ?thesis by simp
  qed
  then obtain ls where ls: "stdout s3 = stdout s @ ls" ..
  obtain r4 s4 where c: "close_file E fn s3 = (r4, s4)" by (cases "close_file E fn s3")
  from stdout_close_file [of E fn s3] c ls have o4: "stdout s4 = stdout s @ ls" by simp
  have "stdout (snd (write_to_csv E d fn dbg s)) = stdout s @ ls
        \<or> stdout (snd (write_to_csv E d fn dbg s)) =
             stdout s @ (ls @ [Text (''CSV file '' @ [CHR 0x27] @ fn @ [CHR 0x27] @ '' has been created.'')])"
    using False x c o4 by (simp add: write_to_csv_def Let_def split: sum.splits)
  then show ?thesis by blast
qed

lemma main_files_before_write:
  assumes "get_repositories E (org a) (token a) (github_url a) (exclude a) (debug a) s
             = Some (Inr repos, s1)"
    and "main_for E a repos [] s1 = Some (r2, s2)"
  shows "files s2 = files s"
proof -
  from get_repositories_effect [OF assms(1)] obtain k where
    q1: "quiet s1 = fold (sent E) (repos_urls (github_url a) (org a) 1 (Suc k)) (quiet s)"
    by blast
  from files_of_quiet [OF q1] have "files s1 = files s" by simp
  with main_for_effect [OF assms(2)] show ?thesis by simp
qed

text \<open>
  C7, as the code has it. The summary line is printed before the CSV file is written
  (the \<^verbatim>\<open>print\<close> of line 98 comes before the call of \<^verbatim>\<open>write_to_csv\<close> on line 99): when
  an \<open>IOError\<close> occurs during CSV writing, the run aborts after having printed the
  summary line. Whether the writer raises or returns, it was started in the world in
  which the summary line had just been printed, no file having been touched until then,
  and the line stays in the output of the run.
\<close>

theorem summary_printed_before_csv:
  "(r = Inl (IOError m) \<or> r = Inr ()) \<and> map_option fst (main E a s) = Some r \<longrightarrow>
     (\<exists>s' repos s1 d s2 ls.
        main E a s = Some (r, s')
        \<and> get_repositories E (org a) (token a) (github_url a) (exclude a) (debug a) s
            = Some (Inr repos, s1)
        \<and> main_for E a repos [] s1 = Some (Inr d, s2)
        \<and> files s2 = files s
        \<and> write_to_csv E d (output_csv a) (debug a)
            (print_line (summary (org a) (length d)) s2) = (r, s')
        \<and> stdout s' = stdout s2 @ summary (org a) (length d) # ls)"
proof (intro impI, elim conjE)
  assume r: "r = Inl (IOError m) \<or> r = Inr ()"
  assume "map_option fst (main E a s) = Some r"
  from map_option_fst_Some [OF this] obtain s' where
    mn: "main E a s = Some (r, s')" ..
  from main_effect [OF mn] obtain repos s1 r2 s2 where
    l: "get_repositories E (org a) (token a) (github_url a) (exclude a) (debug a) s
          = Some (Inr repos, s1)"
    and mf: "main_for E a repos [] s1 = Some (r2, s2)"
    and w: "case r2 of
              Inl e \<Rightarrow> r = Inl e \<and> s' = s2
            | Inr d \<Rightarrow> write_to_csv E d (output_csv a) (debug a)
                         (print_line (summary (org a) (length d)) s2) = (r, s')"
    by blast
  have "\<exists>d. r2 = Inr d"
  proof (cases r2)
    case (Inl e)
    with w have "r = Inl e" by simp
    with r have "e = IOError m" by auto
    with Inl mf main_for_errors [of E a repos "[]" s1 e s2] show ?thesis by simp
  next
    case (Inr d)
    then show ?thesis by simp
  qed
  then obtain d where r2: "r2 = Inr d" ..
  let ?s3 = "print_line (summary (org a) (length d)) s2"
  from w r2 have w2: "write_to_csv E d (output_csv a) (debug a) ?s3 = (r, s')"
    by simp
  from mf r2 have mf': "main_for E a repos [] s1 = Some (Inr d, s2)" by simp
  from main_files_before_write [OF l mf] have f: "files s2 = files s" .
  from stdout_write_to_csv [of E d "output_csv a" "debug a" ?s3] w2 obtain ls where
    "stdout s' = stdout ?s3 @ ls" by auto
  then have o: "stdout s' = stdout s2 @ summary (org a) (length d) # ls" by simp
  from mn l mf' f w2 o show "\<exists>s' repos s1 d s2 ls.
        main E a s = Some (r, s')
        \<and> get_repositories E (org a) (token a) (github_url a) (exclude a) (debug a) s
            = Some (Inr repos, s1)
        \<and> main_for E a repos [] s1 = Some (Inr d, s2)
        \<and> files s2 = files s
        \<and> write_to_csv E d (output_csv a) (debug a)
            (print_line (summary (org a) (length d)) s2) = (r, s')
        \<and> stdout s' = stdout s2 @ summary (org a) (length d) # ls"
    by blast
qed

lemma read_only_run:
  "map_option (\<lambda>(r, s'). (r, stdout s', files s' ''out.csv''))
     (main read_only acme_args world0)
   = Some (Inl (IOError ''out.csv''),
           [Text ''Total unique developers in acme who have committed in the past 90 days: 2''],
           None)"
  by (simp add: run_simps read_only_def acme_def acme_args_def world0_def)

lemma disk_full_run:
  "map_option (\<lambda>(r, s'). (r, files s' ''out.csv'', last (stdout s')))
     (main disk_full verbose_args world0)
   = Some (Inl (IOError ''out.csv''),
           Some [[''Developer'', ''Number of Repos'']],
           Text (''Wrote developer '' @ [CHR 0x27] @ ''alice'' @ [CHR 0x27]
                 @ '' with count 2 to CSV.''))"
  by (simp add: run_simps disk_full_def acme_def verbose_args_def acme_args_def world0_def)

theorem summary_printed_before_csv_counterexample:
  "map_option (\<lambda>(r, s'). (r, summary ''acme'' 2 \<in> set (stdout s')))
     (main read_only acme_args world0)
   = Some (Inl (IOError ''out.csv''), True)"
  by (simp add: run_simps read_only_def acme_def acme_args_def world0_def)

theorem summary_printed_before_csv_witness:
  "(\<exists>s' repos s1 d s2 ls.
        main read_only acme_args world0 = Some (Inl (IOError ''out.csv''), s')
        \<and> get_repositories read_only (org acme_args) (token acme_args) (github_url acme_args)
            (exclude acme_args) (debug acme_args) world0 = Some (Inr repos, s1)
        \<and> main_for read_only acme_args repos [] s1 = Some (Inr d, s2)
        \<and> files s2 = files world0
        \<and> write_to_csv read_only d (output_csv acme_args) (debug acme_args)
            (print_line (summary (org acme_args) (length d)) s2) = (Inl (IOError ''out.csv''), s')
        \<and> stdout s' = stdout s2 @ summary (org acme_args) (length d) # ls)
   \<and> (\<exists>s' repos s1 d s2 ls.
        main disk_full verbose_args world0 = Some (Inl (IOError ''out.csv''), s')
        \<and> get_repositories disk_full (org verbose_args) (token verbose_args) (github_url verbose_args)
            (exclude verbose_args) (debug verbose_args) world0 = Some (Inr repos, s1)
        \<and> main_for disk_full verbose_args repos [] s1 = Some (Inr d, s2)
        \<and> files s2 = files world0
        \<and> write_to_csv disk_full d (output_csv verbose_args) (debug verbose_args)
            (print_line (summary (org verbose_args) (length d)) s2) = (Inl (IOError ''out.csv''), s')
        \<and> stdout s' = stdout s2 @ summary (org verbose_args) (length d) # ls)
   \<and> (\<exists>s' repos s1 d s2 ls.
        main acme acme_args world0 = Some (Inr (), s')
        \<and> get_repositories acme (org acme_args) (token acme_args) (github_url acme_args)
            (exclude acme_args) (debug acme_args) world0 = Some (Inr repos, s1)
        \<and> main_for acme acme_args repos [] s1 = Some (Inr d, s2)
        \<and> files s2 = files world0
        \<and> write_to_csv acme d (output_csv acme_args) (debug acme_args)
            (print_line (summary (org acme_args) (length d)) s2) = (Inr (), s')
        \<and> stdout s' = stdout s2 @ summary (org acme_args) (length d) # ls)"
proof -
  have no_open: "map_option fst (main read_only acme_args world0) = Some (Inl (IOError ''out.csv''))"
    using read_only_run by (cases "main read_only acme_args world0") auto
  have breaks: "map_option fst (main disk_full verbose_args world0) = Some (Inl (IOError ''out.csv''))"
    using disk_full_run by (cases "main disk_full verbose_args world0") auto
  have good: "map_option fst (main acme acme_args world0) = Some (Inr ())"
    using acme_run by (cases "main acme acme_args world0") auto
  have c1: "(Inl (IOError ''out.csv'') :: error + unit) = Inl (IOError ''out.csv'')
            \<or> (Inl (IOError ''out.csv'') :: error + unit) = Inr ()"
    by simp
  have c2: "(Inr () :: error + unit) = Inl (IOError ''out.csv'') \<or> (Inr () :: error + unit) = Inr ()"
    by simp
  from summary_printed_before_csv [of "Inl (IOError ''out.csv'')" "''out.csv''" read_only acme_args world0,
         THEN mp, OF conjI [OF c1 no_open]]
       summary_printed_before_csv [of "Inl (IOError ''out.csv'')" "''out.csv''" disk_full verbose_args world0,
         THEN mp, OF conjI [OF c1 breaks]]
       summary_printed_before_csv [of "Inr ()" "''out.csv''" acme acme_args world0,
         THEN mp, OF conjI [OF c2 good]]
  show ?thesis by (intro conjI)
qed

text \<open>
  C8. When page 1 of the organization listing holds no repository (and the output path
  can be written), the run completes normally: the output CSV holds the header row
  only, and the summary line
  \<open>Total unique developers in {org} who have committed in the past 90 days: 0\<close> is
  printed; without the debug flag it is the only line printed.
\<close>

theorem empty_organization:
  assumes "org_repos E (OrgRepos (github_url a) (org a) 1 100) (token a) = Ok []"
    and "writable E (output_csv a)"
  shows "\<exists>s'. main E a s = Some (Inr (), s')
           \<and> files s' = (files s)(output_csv a \<mapsto> [[''Developer'', ''Number of Repos'']])
           \<and> Text (''Total unique developers in '' @ org a
                    @ '' who have committed in the past 90 days: 0'') \<in> set (stdout s')
           \<and> (\<not> debug a \<longrightarrow>
                 stdout s' = stdout s @ [Text (''Total unique developers in '' @ org a
                    @ '' who have committed in the past 90 days: 0'')])"
proof -
  have zero: "str 0 = ''0''"
    by (simp add: str.simps digit_def)
  show ?thesis
  proof (cases "debug a")
    case False
    with assms show ?thesis
      by (simp add: main_def get_repositories_def get_repositories_while.simps get_github_api_def
            write_to_csv_def writerow_def close_file_def writable_def summary_def zero
            print_line_def)
  next
    case True
    with assms show ?thesis
      by (simp add: main_def get_repositories_def get_repositories_while.simps get_github_api_def
            write_to_csv_def writerow_def close_file_def writable_def summary_def zero
            print_line_def)
  qed
qed

theorem empty_organization_witness:
  "org_repos empty_org (OrgRepos (github_url acme_args) (org acme_args) 1 100) (token acme_args) = Ok []
   \<and> writable empty_org (output_csv acme_args)
   \<and> (\<exists>s'. main empty_org acme_args stale_report = Some (Inr (), s')
          \<and> files s' ''out.csv'' = Some [[''Developer'', ''Number of Repos'']]
          \<and> stdout s' = [Text ''Total unique developers in acme who have committed in the past 90 days: 0''])"
proof -
  have page: "org_repos empty_org (OrgRepos (github_url acme_args) (org acme_args) 1 100)
                (token acme_args) = Ok []"
    by (simp add: empty_org_def)
  have w: "writable empty_org (output_csv acme_args)"
    by (simp add: writable_def empty_org_def)
  from empty_organization [OF page w, of stale_report] obtain s' where
    m: "main empty_org acme_args stale_report = Some (Inr (), s')"
    and f: "files s' = (files stale_report)(output_csv acme_args \<mapsto> [[''Developer'', ''Number of Repos'']])"
    and o: "\<not> debug acme_args \<longrightarrow>
                 stdout s' = stdout stale_report @ [Text (''Total unique developers in '' @ org acme_args
                    @ '' who have committed in the past 90 days: 0'')]"
    by blast
  from f have F: "files s' ''out.csv'' = Some [[''Developer'', ''Number of Repos'']]"
    by (simp add: acme_args_def)
  from o have O: "stdout s' = [Text ''Total unique developers in acme who have committed in the past 90 days: 0'']"
    by (simp add: acme_args_def stale_report_def world0_def)
  have "\<exists>s'. main empty_org acme_args stale_report = Some (Inr (), s')
          \<and> files s' ''out.csv'' = Some [[''Developer'', ''Number of Repos'']]
          \<and> stdout s' = [Text ''Total unique developers in acme who have committed in the past 90 days: 0'']"
    using m F O by (intro exI [of _ s'] conjI)
  with page w show ?thesis by (intro conjI)
qed

lemma clock_of_quiet: "quiet s2 = t \<Longrightarrow> clock s2 = clock t"
  by (metis quiet_fields(1))

lemma main_for_step:
  assumes "commits_run E (github_url a) (org a) repo (clock s - timedelta_days_90) (token a) 1 k"
    and "repo_commits E (RepoCommits (github_url a) (org a) repo
           (clock s - timedelta_days_90) (1 + k) 100) (token a) = Ok []"
  shows "\<exists>d1 s1. main_for E a (repo # repos) d s = main_for E a repos d1 s1
           \<and> requests s1 = requests s
               @ commits_urls (github_url a) (org a) repo (clock s - timedelta_days_90) 1 (Suc k)
           \<and> clock s1 = clock s
               + elapsed E (commits_urls (github_url a) (org a) repo (clock s - timedelta_days_90) 1 (Suc k))"
proof -
  let ?since = "clock s - timedelta_days_90"
  let ?us = "commits_urls (github_url a) (org a) repo ?since 1 (Suc k)"
  let ?cs = "contributors_of E (github_url a) (org a) repo ?since (token a) k"
  from assms(2) have out: "collector_outcome E (github_url a) (org a) repo ?since (token a) k = Inr ?cs"
    by (simp add: collector_outcome_def collector_end_def)
  from get_recent_contributors_run [OF assms(1), of "debug a"] out obtain s2 where
    c: "get_recent_contributors E (org a) repo (token a) (github_url a) (debug a) s = Some (Inr ?cs, s2)"
    and q: "quiet s2 = record_set repo (Inr ?cs) (fold (sent E) ?us (quiet s))"
    by auto
  let ?s3 = "snd (count_contributors (debug a) (set_order E ?cs) d s2)"
  have q3: "quiet ?s3 = record_set repo (Inr ?cs) (fold (sent E) ?us (quiet s))"
    using q by simp
  from requests_of_quiet [OF q3] have r: "requests ?s3 = requests s @ ?us" by simp
  from clock_of_quiet [OF q3] have t: "clock ?s3 = clock s + elapsed E ?us"
    by (simp add: elapsed_def)
  from main_for_Cons_ok [OF c, of repos d] r t show ?thesis by blast
qed

lemma elapsed_nonneg: "0 \<le> elapsed E us"
  by (induction us) (simp_all add: elapsed_def)

lemma elapsed_pos: "\<exists>u\<in>set us. 0 < took E u \<Longrightarrow> 0 < elapsed E us"
proof (induction us)
  case Nil
  then show ?case by simp
next
  case (Cons u us)
  have "0 \<le> elapsed E us" by (rule elapsed_nonneg)
  moreover have "elapsed E (u # us) = int (took E u) + elapsed E us"
    by (simp add: elapsed_def)
  ultimately show ?case using Cons by (cases "0 < took E u") auto
qed

lemma elapsed_append: "elapsed E (us @ vs) = elapsed E us + elapsed E vs"
  by (simp add: elapsed_def)

lemma main_for_requests:
  assumes "all_return E a (clock s) rks"
  shows "\<exists>d' s'. main_for E a (map fst rks) d s = Some (Inr d', s')
           \<and> requests s' = requests s @ collector_requests E a (clock s) rks"
  using assms
proof (induction rks arbitrary: d s)
  case Nil
  then show ?case by simp
next
  case (Cons p rks)
  obtain repo k where p: "p = (repo, k)" by (cases p)
  let ?since = "clock s - timedelta_days_90"
  let ?us = "commits_urls (github_url a) (org a) repo ?since 1 (Suc k)"
  from Cons.prems have run: "commits_run E (github_url a) (org a) repo ?since (token a) 1 k"
    and stop: "repo_commits E (RepoCommits (github_url a) (org a) repo ?since (1 + k) 100) (token a) = Ok []"
    and rest: "all_return E a (clock s + elapsed E ?us) rks"
    by (simp_all add: p Let_def)
  from main_for_step [OF run stop, of "map fst rks" d] obtain d1 s1 where
    one: "main_for E a (repo # map fst rks) d s = main_for E a (map fst rks) d1 s1"
    and r1: "requests s1 = requests s @ ?us"
    and t1: "clock s1 = clock s + elapsed E ?us"
    by blast
  from rest t1 have "all_return E a (clock s1) rks" by simp
  from Cons.IH [OF this, of d1] obtain d' s' where
    two: "main_for E a (map fst rks) d1 s1 = Some (Inr d', s')"
    and r2: "requests s' = requests s1 @ collector_requests E a (clock s1) rks"
    by blast
  from one two have m: "main_for E a (map fst (p # rks)) d s = Some (Inr d', s')"
    by (simp add: p)
  from r1 r2 t1 have "requests s' = requests s @ collector_requests E a (clock s) (p # rks)"
    by (simp add: p Let_def)
  with m show ?case by blast
qed

lemma cutoffs_append: "cutoffs (us @ vs) = cutoffs us @ cutoffs vs"
  by (simp add: cutoffs_def)

lemma cutoffs_commits_urls: "cutoffs (commits_urls b og repo since p k) = replicate k since"
  by (simp add: cutoffs_def commits_urls_def comp_def map_replicate_const)

lemma cutoffs_unfold:
  "cutoffs (collector_requests E a now ((repo, k) # rks)) =
     replicate (Suc k) (now - timedelta_days_90)
     @ cutoffs (collector_requests E a
          (now + elapsed E (commits_urls (github_url a) (org a) repo (now - timedelta_days_90) 1 (Suc k)))
          rks)"
  by (simp only: collector_requests.simps Let_def cutoffs_append cutoffs_commits_urls)

lemma cutoffs_lower:
  "c \<in> set (cutoffs (collector_requests E a now rks)) \<Longrightarrow> now - timedelta_days_90 \<le> c"
proof (induction rks arbitrary: now)
  case Nil
  then show ?case by (simp add: cutoffs_def)
next
  case (Cons p rks)
  obtain repo k where p: "p = (repo, k)" by (cases p)
  let ?us = "commits_urls (github_url a) (org a) repo (now - timedelta_days_90) 1 (Suc k)"
  from Cons.prems have
    "c = now - timedelta_days_90
     \<or> c \<in> set (cutoffs (collector_requests E a (now + elapsed E ?us) rks))"
    unfolding p cutoffs_unfold by auto
  then show ?case
  proof
    assume "c = now - timedelta_days_90"
    then show ?thesis by simp
  next
    assume "c \<in> set (cutoffs (collector_requests E a (now + elapsed E ?us) rks))"
    from Cons.IH [OF this] elapsed_nonneg [of E ?us] show ?thesis by simp
  qed
qed

lemma cutoffs_sorted: "sorted (cutoffs (collector_requests E a now rks))"
proof (induction rks arbitrary: now)
  case Nil
  show ?case by (simp add: cutoffs_def)
next
  case (Cons p rks)
  obtain repo k where p: "p = (repo, k)" by (cases p)
  let ?us = "commits_urls (github_url a) (org a) repo (now - timedelta_days_90) 1 (Suc k)"
  let ?rest = "cutoffs (collector_requests E a (now + elapsed E ?us) rks)"
  have "\<forall>c\<in>set ?rest. now - timedelta_days_90 \<le> c"
  proof
    fix c assume "c \<in> set ?rest"
    from cutoffs_lower [OF this] elapsed_nonneg [of E ?us] show "now - timedelta_days_90 \<le> c"
      by simp
  qed
  with Cons.IH [of "now + elapsed E ?us"]
  have "sorted (replicate (Suc k) (now - timedelta_days_90) @ ?rest)"
    by (simp only: sorted_append sorted_replicate) auto
  then show ?case
    unfolding p cutoffs_unfold .
qed

lemma cutoffs_nonempty: "rks \<noteq> [] \<Longrightarrow> cutoffs (collector_requests E a now rks) \<noteq> []"
proof (cases rks)
  case Nil
  assume "rks \<noteq> []"
  with Nil show ?thesis by simp
next
  case (Cons p rks')
  obtain repo k where p: "p = (repo, k)" by (cases p)
  show ?thesis
    unfolding Cons p cutoffs_unfold by simp
qed

lemma cutoffs_hd:
  "rks \<noteq> [] \<Longrightarrow> hd (cutoffs (collector_requests E a now rks)) = now - timedelta_days_90"
proof (cases rks)
  case Nil
  assume "rks \<noteq> []"
  with Nil show ?thesis by simp
next
  case (Cons p rks')
  obtain repo k where p: "p = (repo, k)" by (cases p)
  show ?thesis
    unfolding Cons p cutoffs_unfold by simp
qed

lemma cutoffs_drift:
  assumes "2 \<le> length rks" and "\<forall>u. 0 < took E u"
  shows "hd (cutoffs (collector_requests E a now rks))
           < last (cutoffs (collector_requests E a now rks))"
proof (cases rks)
  case Nil
  with assms(1) show ?thesis by simp
next
  case (Cons p rks')
  obtain repo k where p: "p = (repo, k)" by (cases p)
  let ?us = "commits_urls (github_url a) (org a) repo (now - timedelta_days_90) 1 (Suc k)"
  let ?rest = "cutoffs (collector_requests E a (now + elapsed E ?us) rks')"
  from assms(1) Cons have ne: "rks' \<noteq> []" by auto
  from cutoffs_nonempty [OF ne] have rest: "?rest \<noteq> []" .
  then have "last ?rest \<in> set ?rest" by (rule last_in_set)
  from cutoffs_lower [OF this] have lo: "now + elapsed E ?us - timedelta_days_90 \<le> last ?rest" .
  have "?us \<noteq> []"
    by (simp add: commits_urls_def)
  then obtain u where "u \<in> set ?us" by (cases ?us) auto
  with assms(2) have "\<exists>u\<in>set ?us. 0 < took E u" by blast
  from elapsed_pos [OF this] lo have lt: "now - timedelta_days_90 < last ?rest" by simp
  have h: "hd (cutoffs (collector_requests E a now rks)) = now - timedelta_days_90"
    unfolding Cons p cutoffs_unfold by simp
  have l: "last (cutoffs (collector_requests E a now rks)) = last ?rest"
    unfolding Cons p cutoffs_unfold using rest by simp
  from lt show ?thesis by (simp only: h l)
qed

lemma collector_requests_of:
  assumes "get_recent_contributors E og repo tok b dbg s = Some (r, s1)"
  shows "\<exists>k. requests s1 = requests s @ commits_urls b og repo (clock s - timedelta_days_90) 1 (Suc k)"
proof -
  from collector_effect [OF assms] obtain k where
    q: "quiet s1 = record_set repo r
          (fold (sent E) (commits_urls b og repo (clock s - timedelta_days_90) 1 (Suc k)) (quiet s))"
    by blast
  from requests_of_quiet [OF q]
  have "requests s1 = requests s @ commits_urls b og repo (clock s - timedelta_days_90) 1 (Suc k)"
    by (cases r) (simp_all add: record_set_def)
  then show ?thesis ..
qed

text \<open>
  C9. The cutoff of the \<open>since\<close> parameter is computed anew at each call of the
  contributor collector, as the time of that call minus 90 days; it is not fixed at the
  start of the run. Every request that one call of the collector sends carries the
  clock at that call minus 90 days. In a run over repositories whose listings all end,
  the loop over the repositories returns, and the requests it has sent are those of the
  successive calls, each with the cutoff of its own time: along the requests the cutoff
  never moves back, the first one is the time at which the loop started minus 90 days,
  and, as soon as requests take time and there are two repositories, the cutoff of the
  last request is later than the cutoff of the first.
\<close>

theorem cutoff_recomputed_per_repository:
  "(get_recent_contributors E og repo tok b dbg s = Some (r, s1) \<longrightarrow>
      (\<exists>k. requests s1 =
              requests s @ commits_urls b og repo (clock s - timedelta_days_90) 1 (Suc k)))
   \<and> (all_return E a (clock s) rks \<longrightarrow>
      (\<exists>d' s' new.
         main_for E a (map fst rks) d s = Some (Inr d', s')
         \<and> requests s' = requests s @ new
         \<and> new = collector_requests E a (clock s) rks
         \<and> sorted (cutoffs new)
         \<and> (rks \<noteq> [] \<longrightarrow> hd (cutoffs new) = clock s - timedelta_days_90)
         \<and> (2 \<le> length rks \<and> (\<forall>u. 0 < took E u) \<longrightarrow> hd (cutoffs new) < last (cutoffs new))))"
proof (intro conjI impI)
  assume "get_recent_contributors E og repo tok b dbg s = Some (r, s1)"
  then show "\<exists>k. requests s1 =
              requests s @ commits_urls b og repo (clock s - timedelta_days_90) 1 (Suc k)"
    by (rule collector_requests_of)
next
  let ?new = "collector_requests E a (clock s) rks"
  assume "all_return E a (clock s) rks"
  from main_for_requests [OF this, of d] obtain d' s' where
    m: "main_for E a (map fst rks) d s = Some (Inr d', s')"
    and r: "requests s' = requests s @ ?new"
    by blast
  have so: "sorted (cutoffs ?new)"
    by (rule cutoffs_sorted)
  have h: "rks \<noteq> [] \<longrightarrow> hd (cutoffs ?new) = clock s - timedelta_days_90"
    by (simp add: cutoffs_hd)
  have l: "2 \<le> length rks \<and> (\<forall>u. 0 < took E u) \<longrightarrow> hd (cutoffs ?new) < last (cutoffs ?new)"
    using cutoffs_drift [of rks E a "clock s"] by blast
  from m r so h l show "\<exists>d' s' new.
         main_for E a (map fst rks) d s = Some (Inr d', s')
         \<and> requests s' = requests s @ new
         \<and> new = collector_requests E a (clock s) rks
         \<and> sorted (cutoffs new)
         \<and> (rks \<noteq> [] \<longrightarrow> hd (cutoffs new) = clock s - timedelta_days_90)
         \<and> (2 \<le> length rks \<and> (\<forall>u. 0 < took E u) \<longrightarrow> hd (cutoffs new) < last (cutoffs new))"
    by blast
qed

lemma acme_api_call:
  "\<exists>s1. get_recent_contributors acme ''acme'' ''api'' ''t'' ''https://api.github.com'' False world0
          = Some (Inr [''alice'', ''bob''], s1)"
  by (simp add: run_simps acme_def world0_def)

lemma acme_requests:
  "collector_requests acme acme_args (clock world0) [(''api'', 1), (''web'', 1)] =
     [RepoCommits ''https://api.github.com'' ''acme'' ''api'' (- 7776000000000) 1 100,
      RepoCommits ''https://api.github.com'' ''acme'' ''api'' (- 7776000000000) 2 100,
      RepoCommits ''https://api.github.com'' ''acme'' ''web'' (- 7775999500000) 1 100,
      RepoCommits ''https://api.github.com'' ''acme'' ''web'' (- 7775999500000) 2 100]"
  by (simp add: Let_def commits_urls_def elapsed_def upt_rec acme_def acme_args_def world0_def
        timedelta_days_90_def)

theorem cutoff_recomputed_per_repository_witness:
  "all_return acme acme_args (clock world0) [(''api'', 1), (''web'', 1)]
   \<and> (\<forall>u. 0 < took acme u)
   \<and> (\<exists>s1 k. get_recent_contributors acme ''acme'' ''api'' ''t'' ''https://api.github.com'' False world0
            = Some (Inr [''alice'', ''bob''], s1)
          \<and> requests s1 =
              commits_urls ''https://api.github.com'' ''acme'' ''api'' (- 7776000000000) 1 (Suc k))
   \<and> (\<exists>d' s'. main_for acme acme_args [''api'', ''web''] [] world0 = Some (Inr d', s')
          \<and> requests s' =
              [RepoCommits ''https://api.github.com'' ''acme'' ''api'' (- 7776000000000) 1 100,
               RepoCommits ''https://api.github.com'' ''acme'' ''api'' (- 7776000000000) 2 100,
               RepoCommits ''https://api.github.com'' ''acme'' ''web'' (- 7775999500000) 1 100,
               RepoCommits ''https://api.github.com'' ''acme'' ''web'' (- 7775999500000) 2 100]
          \<and> sorted (cutoffs (requests s'))
          \<and> hd (cutoffs (requests s')) = - 7776000000000
          \<and> hd (cutoffs (requests s')) < last (cutoffs (requests s')))"
proof -
  let ?b = "''https://api.github.com''"
  let ?rks = "[(''api'', 1 :: nat), (''web'', 1)]"
  have ret: "all_return acme acme_args (clock world0) ?rks"
    by (simp add: Let_def commits_run_def more_commits_def commits_urls_def elapsed_def upt_rec
          acme_def acme_args_def world0_def timedelta_days_90_def)
  have time: "\<forall>u. 0 < took acme u"
    by (simp add: acme_def)
  from acme_api_call obtain s1 where
    c: "get_recent_contributors acme ''acme'' ''api'' ''t'' ?b False world0
          = Some (Inr [''alice'', ''bob''], s1)" ..
  from cutoff_recomputed_per_repository [where E = acme and og = "''acme''" and repo = "''api''"
         and tok = "''t''" and b = ?b and dbg = False and s = world0
         and r = "Inr [''alice'', ''bob'']" and ?s1.0 = s1 and a = acme_args and rks = ?rks
         and d = "[]", THEN conjunct1, THEN mp, OF c]
  obtain k where rk: "requests s1 =
      requests world0 @ commits_urls ?b ''acme'' ''api'' (clock world0 - timedelta_days_90) 1 (Suc k)" ..
  from rk have one: "requests s1 = commits_urls ?b ''acme'' ''api'' (- 7776000000000) 1 (Suc k)"
    by (simp add: world0_def timedelta_days_90_def)
  from cutoff_recomputed_per_repository [where E = acme and og = "''acme''" and repo = "''api''"
         and tok = "''t''" and b = ?b and dbg = False and s = world0
         and r = "Inr [''alice'', ''bob'']" and ?s1.0 = s1 and a = acme_args and rks = ?rks
         and d = "[]", THEN conjunct2, THEN mp, OF ret]
  obtain d' s' new where
    m: "main_for acme acme_args (map fst ?rks) [] world0 = Some (Inr d', s')"
    and r: "requests s' = requests world0 @ new"
    and n: "new = collector_requests acme acme_args (clock world0) ?rks"
    and so: "sorted (cutoffs new)"
    and h: "?rks \<noteq> [] \<longrightarrow> hd (cutoffs new) = clock world0 - timedelta_days_90"
    and l: "2 \<le> length ?rks \<and> (\<forall>u. 0 < took acme u) \<longrightarrow> hd (cutoffs new) < last (cutoffs new)"
    by blast
  from r n have R: "requests s' = new"
    by (simp add: world0_def)
  from m have M: "main_for acme acme_args [''api'', ''web''] [] world0 = Some (Inr d', s')"
    by simp
  from n have N: "new =
              [RepoCommits ?b ''acme'' ''api'' (- 7776000000000) 1 100,
               RepoCommits ?b ''acme'' ''api'' (- 7776000000000) 2 100,
               RepoCommits ?b ''acme'' ''web'' (- 7775999500000) 1 100,
               RepoCommits ?b ''acme'' ''web'' (- 7775999500000) 2 100]"
    by (simp only: acme_requests)
  from h have H: "hd (cutoffs new) = - 7776000000000"
    by (simp add: world0_def timedelta_days_90_def)
  from l time have L: "hd (cutoffs new) < last (cutoffs new)"
    by simp
  have B: "\<exists>d' s'. main_for acme acme_args [''api'', ''web''] [] world0 = Some (Inr d', s')
          \<and> requests s' =
              [RepoCommits ?b ''acme'' ''api'' (- 7776000000000) 1 100,
               RepoCommits ?b ''acme'' ''api'' (- 7776000000000) 2 100,
               RepoCommits ?b ''acme'' ''web'' (- 7775999500000) 1 100,
               RepoCommits ?b ''acme'' ''web'' (- 7775999500000) 2 100]
          \<and> sorted (cutoffs (requests s'))
          \<and> hd (cutoffs (requests s')) = - 7776000000000
          \<and> hd (cutoffs (requests s')) < last (cutoffs (requests s'))"
    using M N so H L unfolding R [symmetric]
    by (intro exI [of _ d'] exI [of _ s'] conjI)
  have A: "\<exists>s1 k. get_recent_contributors acme ''acme'' ''api'' ''t'' ?b False world0
            = Some (Inr [''alice'', ''bob''], s1)
          \<and> requests s1 = commits_urls ?b ''acme'' ''api'' (- 7776000000000) 1 (Suc k)"
    using c one by (intro exI [of _ s1] exI [of _ k] conjI)
  from ret time A B show ?thesis by (intro conjI)
qed














end
